theory Spec2Isabelle
  imports Complex_Main "HOL-Library.Word" "HOL-Library.AList"
begin

unbundle bit_operations_syntax

section \<open>Data model\<close>

text \<open>
  The program (\<^verbatim>\<open>project1.py\<close>) recovers two English plaintexts from two
  ciphertexts that share a one-time pad. Its values are modelled as follows.
  \<^item> A Python \<^verbatim>\<open>bytes\<close> or \<^verbatim>\<open>bytearray\<close> object is a list of 8-bit words.
  \<^item> A Python \<^verbatim>\<open>str\<close> is a list of Unicode code points (natural numbers).
  \<^item> A Python \<^verbatim>\<open>float\<close> is a real number: rounding, infinities and NaN are
    not modelled, so every statement below about scores is a statement about the
    exact arithmetic the program approximates.
  \<^item> An exception is a value of \<open>py_error\<close>, returned as \<open>Inl\<close>.
  \<^item> The functions of Python's library that the program calls and that are not
    determined by its own text are parameters: the parser \<^verbatim>\<open>float(v)\<close>, the Unicode
    lower-casing of code points beyond ASCII, and the random-number generator.
\<close>

type_synonym byte = "8 word"
type_synonym bytes = "byte list"
type_synonym pystr = "nat list"

datatype py_error = ValueError | IndexError | KeyError

type_synonym logp_table = "(pystr \<times> pystr) \<rightharpoonup> real"

definition str_of :: "string \<Rightarrow> pystr" where
  "str_of s = map of_char s"

definition bytes_of :: "string \<Rightarrow> bytes" where
  "bytes_of s = map of_char s"

definition ALPHABET :: bytes where
  "ALPHABET = bytes_of '' ABCDEFGHIJKLMNOPQRSTUVWXYZabcdefghijklmnopqrstuvwxyz''"

definition COMMON_WORDS :: "pystr list" where
  "COMMON_WORDS = map str_of
     [''the'', ''and'', ''you'', ''that'', ''was'', ''this'', ''with'', ''for'', ''have'', ''not'',
      ''are'', ''but'', ''had'', ''they'', ''his'', ''from'', ''she'', ''which'', ''will'', ''one'']"

section \<open>xor_bytes\<close>

text \<open>\<^verbatim>\<open>bytes([a ^ b for a, b in zip(b1, b2)])\<close>: \<^verbatim>\<open>zip\<close> stops at the shorter argument.\<close>

definition xor_bytes :: "bytes \<Rightarrow> bytes \<Rightarrow> bytes" where
  "xor_bytes b1 b2 = map (\<lambda>(a, b). a XOR b) (zip b1 b2)"

section \<open>load_ftable\<close>

text \<open>
  The argument \<open>rows\<close> is what \<^verbatim>\<open>csv.reader\<close> yields: a list of rows, each a list of
  cells. \<open>pyfloat\<close> is Python's \<^verbatim>\<open>float(v)\<close> on a string, \<open>None\<close> where it raises
  \<^verbatim>\<open>ValueError\<close>. Dictionaries that the code iterates over (\<^verbatim>\<open>counts\<close>) or reads
  with a default (\<^verbatim>\<open>totals\<close>) are association lists in insertion order, updated in
  place; the result \<^verbatim>\<open>logp\<close> is only ever looked up, so it is a map.
\<close>

text \<open>The characters \<^verbatim>\<open>str.strip()\<close> removes: those for which \<^verbatim>\<open>str.isspace()\<close> holds.\<close>

definition is_space :: "nat \<Rightarrow> bool" where
  "is_space c \<longleftrightarrow>
     (9 \<le> c \<and> c \<le> 13) \<or> (28 \<le> c \<and> c \<le> 32) \<or> c = 133 \<or> c = 160 \<or> c = 5760 \<or>
     (8192 \<le> c \<and> c \<le> 8202) \<or> c = 8232 \<or> c = 8233 \<or> c = 8239 \<or> c = 8287 \<or> c = 12288"

definition strip :: "pystr \<Rightarrow> pystr" where
  "strip s = rev (dropWhile is_space (rev (dropWhile is_space s)))"

definition floor_prob :: real where
  "floor_prob = 1 / 1000000000"

text \<open>\<^verbatim>\<open>try: ... = float(v)  except: ... = 0.0\<close>\<close>

definition float_or_zero :: "(pystr \<Rightarrow> real option) \<Rightarrow> pystr \<Rightarrow> real" where
  "float_or_zero pyfloat v = (case pyfloat v of Some x \<Rightarrow> x | None \<Rightarrow> 0)"

text \<open>
  The inner loop \<^verbatim>\<open>for i, v in enumerate(r[1:])\<close>. When \<open>i\<close> is beyond the header,
  \<^verbatim>\<open>header[i]\<close> raises \<^verbatim>\<open>IndexError\<close>; the bare \<^verbatim>\<open>except\<close> catches it and evaluates
  \<^verbatim>\<open>header[i]\<close> again, so the error leaves the function.
\<close>

fun count_cells ::
  "(pystr \<Rightarrow> real option) \<Rightarrow> pystr list \<Rightarrow> pystr \<Rightarrow> nat \<Rightarrow> pystr list \<Rightarrow>
   ((pystr \<times> pystr) \<times> real) list \<Rightarrow> py_error + ((pystr \<times> pystr) \<times> real) list" where
  "count_cells pyfloat header a i [] counts = Inr counts"
| "count_cells pyfloat header a i (v # vs) counts =
     (if i < length header
      then count_cells pyfloat header a (Suc i) vs
             (AList.update (a, header ! i) (float_or_zero pyfloat v) counts)
      else Inl IndexError)"

text \<open>The outer loop \<^verbatim>\<open>for r in rows[1:]\<close>; \<^verbatim>\<open>r[0]\<close> raises on an empty row.\<close>

fun count_rows ::
  "(pystr \<Rightarrow> real option) \<Rightarrow> pystr list \<Rightarrow> pystr list list \<Rightarrow>
   ((pystr \<times> pystr) \<times> real) list \<Rightarrow> py_error + ((pystr \<times> pystr) \<times> real) list" where
  "count_rows pyfloat header [] counts = Inr counts"
| "count_rows pyfloat header (r # rs) counts =
     (case r of
        [] \<Rightarrow> Inl IndexError
      | r0 # vs \<Rightarrow>
          (case count_cells pyfloat header (strip r0) 0 vs counts of
             Inl e \<Rightarrow> Inl e
           | Inr counts' \<Rightarrow> count_rows pyfloat header rs counts'))"

text \<open>\<^verbatim>\<open>totals[a] = totals.get(a, 0.0) + v\<close>, for every item of \<^verbatim>\<open>counts\<close>.\<close>

definition dict_get :: "('k \<rightharpoonup> 'v) \<Rightarrow> 'k \<Rightarrow> 'v \<Rightarrow> 'v" where
  "dict_get m k d = (case m k of Some v \<Rightarrow> v | None \<Rightarrow> d)"

definition row_totals :: "((pystr \<times> pystr) \<times> real) list \<Rightarrow> (pystr \<times> real) list" where
  "row_totals counts =
     fold (\<lambda>((a, b), v) totals. AList.update a (dict_get (map_of totals) a 0 + v) totals) counts []"

text \<open>
  The last loop: \<^verbatim>\<open>tot = totals[a]\<close> (a \<^verbatim>\<open>KeyError\<close> when absent),
  \<^verbatim>\<open>prob = floor if tot <= 0 else max(v / tot, floor)\<close>, \<^verbatim>\<open>logp[(a, b)] = math.log(prob)\<close>.
\<close>

definition clamp_prob :: "real \<Rightarrow> real \<Rightarrow> real" where
  "clamp_prob v tot = (if tot \<le> 0 then floor_prob else max (v / tot) floor_prob)"

fun logp_loop ::
  "(pystr \<times> real) list \<Rightarrow> ((pystr \<times> pystr) \<times> real) list \<Rightarrow> logp_table \<Rightarrow>
   py_error + logp_table" where
  "logp_loop totals [] logp = Inr logp"
| "logp_loop totals (((a, b), v) # items) logp =
     (case map_of totals a of
        None \<Rightarrow> Inl KeyError
      | Some tot \<Rightarrow> logp_loop totals items (logp((a, b) \<mapsto> ln (clamp_prob v tot))))"

definition load_counts ::
  "(pystr \<Rightarrow> real option) \<Rightarrow> pystr list list \<Rightarrow> py_error + ((pystr \<times> pystr) \<times> real) list" where
  "load_counts pyfloat rows =
     (case rows of
        [] \<Rightarrow> Inl IndexError
      | r0 # rest \<Rightarrow> count_rows pyfloat (drop 1 r0) rest [])"

definition load_ftable ::
  "(pystr \<Rightarrow> real option) \<Rightarrow> pystr list list \<Rightarrow> py_error + logp_table" where
  "load_ftable pyfloat rows =
     (case load_counts pyfloat rows of
        Inl e \<Rightarrow> Inl e
      | Inr counts \<Rightarrow> logp_loop (row_totals counts) counts Map.empty)"

section \<open>The scorer\<close>

definition byte_to_char :: "byte \<Rightarrow> pystr option" where
  "byte_to_char b =
     (if b = 32 then Some (str_of '' '')
      else if 65 \<le> b \<and> b \<le> 90 then Some [unat b]
      else if 97 \<le> b \<and> b \<le> 122 then Some [unat b - 32]
      else None)"

definition penalty :: real where
  "penalty = - 100"

text \<open>
  \<^verbatim>\<open>for i in range(len(b) - 1)\<close>: for the empty sequence the range is
  \<^verbatim>\<open>range(-1)\<close>, which is empty, as \<open>[0..<0 - 1]\<close> is.
\<close>

definition score_bigram :: "bytes \<Rightarrow> logp_table \<Rightarrow> real" where
  "score_bigram b logp =
     fold (\<lambda>i s.
            let a = byte_to_char (b ! i); c = byte_to_char (b ! (i + 1))
            in if a = None \<or> c = None then s + penalty
               else s + dict_get logp (the a, the c) (ln floor_prob))
          [0..<length b - 1] 0"

text \<open>
  \<^verbatim>\<open>candidate_bytes.decode('utf-8', errors='ignore')\<close>. A byte below 128 is its own
  code point. A well-formed sequence of two, three or four bytes is one code point.
  Anything else is an error, and \<^verbatim>\<open>ignore\<close> drops the bytes of the error: the lead
  byte alone when it is no lead byte or its first continuation byte is wrong, the
  well-formed prefix when a later continuation byte is wrong or the input ends.
\<close>

definition is_cont :: "byte \<Rightarrow> bool" where
  "is_cont c \<longleftrightarrow> 128 \<le> c \<and> c \<le> 191"

definition second_ok :: "byte \<Rightarrow> byte \<Rightarrow> bool" where
  "second_ok b c \<longleftrightarrow>
     (if b = 224 then 160 \<le> c \<and> c \<le> 191
      else if b = 237 then 128 \<le> c \<and> c \<le> 159
      else if b = 240 then 144 \<le> c \<and> c \<le> 191
      else if b = 244 then 128 \<le> c \<and> c \<le> 143
      else is_cont c)"

definition code2 :: "byte \<Rightarrow> byte \<Rightarrow> nat" where
  "code2 b c = (unat b - 192) * 64 + (unat c - 128)"

definition code3 :: "byte \<Rightarrow> byte \<Rightarrow> byte \<Rightarrow> nat" where
  "code3 b c d = (unat b - 224) * 4096 + (unat c - 128) * 64 + (unat d - 128)"

definition code4 :: "byte \<Rightarrow> byte \<Rightarrow> byte \<Rightarrow> byte \<Rightarrow> nat" where
  "code4 b c d e =
     (unat b - 240) * 262144 + (unat c - 128) * 4096 + (unat d - 128) * 64 + (unat e - 128)"

fun utf8_decode_ignore :: "bytes \<Rightarrow> pystr" where
  "utf8_decode_ignore [] = []"
| "utf8_decode_ignore (b # bs) =
     (if b < 128 then unat b # utf8_decode_ignore bs
      else if 194 \<le> b \<and> b \<le> 223 then
        (case bs of
           [] \<Rightarrow> []
         | c # r1 \<Rightarrow>
             if is_cont c then code2 b c # utf8_decode_ignore r1 else utf8_decode_ignore bs)
      else if 224 \<le> b \<and> b \<le> 239 then
        (case bs of
           [] \<Rightarrow> []
         | c # r1 \<Rightarrow>
             if second_ok b c then
               (case r1 of
                  [] \<Rightarrow> []
                | d # r2 \<Rightarrow>
                    if is_cont d then code3 b c d # utf8_decode_ignore r2
                    else utf8_decode_ignore r1)
             else utf8_decode_ignore bs)
      else if 240 \<le> b \<and> b \<le> 244 then
        (case bs of
           [] \<Rightarrow> []
         | c # r1 \<Rightarrow>
             if second_ok b c then
               (case r1 of
                  [] \<Rightarrow> []
                | d # r2 \<Rightarrow>
                    if is_cont d then
                      (case r2 of
                         [] \<Rightarrow> []
                       | e # r3 \<Rightarrow>
                           if is_cont e then code4 b c d e # utf8_decode_ignore r3
                           else utf8_decode_ignore r2)
                    else utf8_decode_ignore r1)
             else utf8_decode_ignore bs)
      else utf8_decode_ignore bs)"

text \<open>
  \<^verbatim>\<open>text.lower()\<close>: an ASCII capital becomes its small letter, every other ASCII
  character stays, and a code point beyond ASCII becomes what the Unicode tables say,
  given by the parameter \<open>ulower\<close>.
\<close>

definition str_lower :: "(nat \<Rightarrow> pystr) \<Rightarrow> pystr \<Rightarrow> pystr" where
  "str_lower ulower s =
     concat (map (\<lambda>c. if 65 \<le> c \<and> c \<le> 90 then [c + 32] else if c < 128 then [c] else ulower c) s)"

text \<open>
  \<^verbatim>\<open>text.count(word)\<close>: the number of occurrences that do not overlap, found from
  left to right; for the empty word, one more than the length.
\<close>

function str_count :: "pystr \<Rightarrow> pystr \<Rightarrow> nat" where
  "str_count s w =
     (if w = [] then length s + 1
      else if s = [] then 0
      else if take (length w) s = w then 1 + str_count (drop (length w) s) w
      else str_count (tl s) w)"
  by pat_completeness auto
termination
  by (relation "measure (\<lambda>(s, w). length s)") auto

declare str_count.simps [simp del]

definition word_bonus_score :: "(nat \<Rightarrow> pystr) \<Rightarrow> pystr \<Rightarrow> int" where
  "word_bonus_score ulower txt =
     (let text_lower = str_lower ulower txt
      in fold (\<lambda>word bonus. bonus + int (str_count text_lower word) * 10000) COMMON_WORDS 0)"

definition combined_score :: "(nat \<Rightarrow> pystr) \<Rightarrow> bytes \<Rightarrow> logp_table \<Rightarrow> real" where
  "combined_score ulower candidate_bytes logp =
     (let base_score = score_bigram candidate_bytes logp;
          as_text = utf8_decode_ignore candidate_bytes;
          bonus = word_bonus_score ulower as_text
      in base_score + real_of_int bonus)"

section \<open>hillclimb\<close>

text \<open>
  The random-number generator is a state of some type \<open>'g\<close> with the two primitives
  of Python's \<^verbatim>\<open>random\<close> module that the search reaches: \<^verbatim>\<open>_randbelow(n)\<close> and
  \<^verbatim>\<open>random()\<close>, each returning its draw and the next state. The stream of random
  numbers of a run is the generator's initial state.
\<close>

record 'g rng_ops =
  randbelow :: "nat \<Rightarrow> 'g \<Rightarrow> nat \<times> 'g"
  random_draw :: "'g \<Rightarrow> real \<times> 'g"

text \<open>\<^verbatim>\<open>random.randrange(k)\<close> raises \<^verbatim>\<open>ValueError\<close> on an empty range.\<close>

definition py_randrange :: "'g rng_ops \<Rightarrow> nat \<Rightarrow> 'g \<Rightarrow> py_error + (nat \<times> 'g)" where
  "py_randrange ops k g = (if k = 0 then Inl ValueError else Inr (randbelow ops k g))"

text \<open>\<^verbatim>\<open>random.choice(seq)\<close> is \<^verbatim>\<open>seq[self._randbelow(len(seq))]\<close>.\<close>

definition py_choice :: "'g rng_ops \<Rightarrow> 'a list \<Rightarrow> 'g \<Rightarrow> py_error + ('a \<times> 'g)" where
  "py_choice ops seq g =
     (if seq = [] then Inl IndexError
      else let (n, g') = randbelow ops (length seq) g
           in if n < length seq then Inr (seq ! n, g') else Inl IndexError)"

record 'g search_state =
  p1 :: bytes
  cur_score :: real
  best_pair :: "bytes \<times> bytes"
  best_score :: real
  rng :: 'g

text \<open>A \<^verbatim>\<open>for\<close> loop whose body may raise: the first error ends the loop.\<close>

fun for_loop :: "(nat \<Rightarrow> 's \<Rightarrow> py_error + 's) \<Rightarrow> nat list \<Rightarrow> 's \<Rightarrow> py_error + 's" where
  "for_loop body [] s = Inr s"
| "for_loop body (i # is) s =
     (case body i s of Inl e \<Rightarrow> Inl e | Inr s' \<Rightarrow> for_loop body is s')"

text \<open>The score of a candidate and of its counterpart under the difference array.\<close>

definition pair_score :: "(nat \<Rightarrow> pystr) \<Rightarrow> bytes \<Rightarrow> logp_table \<Rightarrow> bytes \<Rightarrow> real" where
  "pair_score ulower X logp c =
     combined_score ulower c logp + combined_score ulower (xor_bytes c X) logp"

text \<open>What the branch of acceptance does: lines 127 to 130.\<close>

definition accept :: "bytes \<Rightarrow> real \<Rightarrow> 'g \<Rightarrow> 'g search_state \<Rightarrow> 'g search_state" where
  "accept X new_score g s =
     (let s1 = s\<lparr>cur_score := new_score, rng := g\<rparr>
      in if new_score > best_score s1
         then s1\<lparr>best_score := new_score, best_pair := (p1 s1, xor_bytes (p1 s1) X)\<rparr>
         else s1)"

text \<open>One pass through the body of the inner loop, lines 116 to 132.\<close>

definition iteration ::
  "'g rng_ops \<Rightarrow> (nat \<Rightarrow> pystr) \<Rightarrow> bytes \<Rightarrow> logp_table \<Rightarrow> nat \<Rightarrow> nat \<Rightarrow>
   'g search_state \<Rightarrow> py_error + 'g search_state" where
  "iteration ops ulower X logp iterations it s =
     (case py_randrange ops (length X) (rng s) of
        Inl e \<Rightarrow> Inl e
      | Inr (i, g1) \<Rightarrow>
          if length (p1 s) \<le> i then Inl IndexError
          else
            let old = p1 s ! i
            in (case py_choice ops ALPHABET g1 of
                  Inl e \<Rightarrow> Inl e
                | Inr (proposal, g2) \<Rightarrow>
                    let s1 = s\<lparr>p1 := (p1 s)[i := proposal]\<rparr>;
                        new_score = pair_score ulower X logp (p1 s1);
                        delta = new_score - cur_score s1;
                        T = max (1 / 100) (1 - real it / real iterations)
                    in if delta \<ge> 0 then Inr (accept X new_score g2 s1)
                       else
                         let (u, g3) = random_draw ops g2
                         in if u < exp (delta / T) then Inr (accept X new_score g3 s1)
                            else Inr (s1\<lparr>p1 := (p1 s1)[i := old], rng := g3\<rparr>)))"

text \<open>The start of a restart, lines 111 and 112: only the candidate and its score are set.\<close>

definition restart_init ::
  "(nat \<Rightarrow> pystr) \<Rightarrow> bytes \<Rightarrow> logp_table \<Rightarrow> (bytes \<times> bytes) \<times> real \<times> 'g \<Rightarrow> 'g search_state" where
  "restart_init ulower X logp st =
     (case st of (bp, bs, g) \<Rightarrow>
        let c = replicate (length X) 32
        in \<lparr>p1 = c, cur_score = pair_score ulower X logp c,
            best_pair = bp, best_score = bs, rng = g\<rparr>)"

text \<open>One pass through the body of the outer loop, lines 111 to 132.\<close>

definition restart ::
  "'g rng_ops \<Rightarrow> (nat \<Rightarrow> pystr) \<Rightarrow> bytes \<Rightarrow> logp_table \<Rightarrow> nat \<Rightarrow> nat \<Rightarrow>
   (bytes \<times> bytes) \<times> real \<times> 'g \<Rightarrow> py_error + ((bytes \<times> bytes) \<times> real \<times> 'g)" where
  "restart ops ulower X logp iterations r st =
     (case for_loop (iteration ops ulower X logp iterations) [0..<iterations]
             (restart_init ulower X logp st) of
        Inl e \<Rightarrow> Inl e
      | Inr s \<Rightarrow> Inr (best_pair s, best_score s, rng s))"

definition initial_best :: "(bytes \<times> bytes) \<times> real" where
  "initial_best = (([], []), - (10 ^ 18))"

definition hillclimb_run ::
  "'g rng_ops \<Rightarrow> (nat \<Rightarrow> pystr) \<Rightarrow> bytes \<Rightarrow> logp_table \<Rightarrow> nat \<Rightarrow> nat \<Rightarrow> 'g \<Rightarrow>
   py_error + ((bytes \<times> bytes) \<times> real \<times> 'g)" where
  "hillclimb_run ops ulower X logp restarts iterations g =
     for_loop (restart ops ulower X logp iterations) [0..<restarts]
       (fst initial_best, snd initial_best, g)"

definition hillclimb ::
  "'g rng_ops \<Rightarrow> (nat \<Rightarrow> pystr) \<Rightarrow> bytes \<Rightarrow> logp_table \<Rightarrow> nat \<Rightarrow> nat \<Rightarrow> 'g \<Rightarrow>
   py_error + ((bytes \<times> bytes) \<times> real)" where
  "hillclimb ops ulower X logp restarts iterations g =
     (case hillclimb_run ops ulower X logp restarts iterations g of
        Inl e \<Rightarrow> Inl e
      | Inr (bp, bs, g') \<Rightarrow> Inr (bp, bs))"

section \<open>Definitions that follow the specification\<close>

text \<open>
  The definitions of this section are not translated from the code. Each one writes
  down a sentence of the specification, to be compared with the code's definition.
\<close>

text \<open>
  The character mapping of the specification as a table: byte 32 is the space, the
  bytes of \<open>A\<close> to \<open>Z\<close> are themselves, the bytes of \<open>a\<close> to \<open>z\<close> are the capital letters
  at the same position of the alphabet, and no other byte has an entry.
\<close>

definition spec_char_table :: "(byte \<times> pystr) list" where
  "spec_char_table =
     (of_char CHR '' '', str_of '' '') #
     zip (bytes_of ''ABCDEFGHIJKLMNOPQRSTUVWXYZ'')
         (map (\<lambda>c. str_of [c]) ''ABCDEFGHIJKLMNOPQRSTUVWXYZ'') @
     zip (bytes_of ''abcdefghijklmnopqrstuvwxyz'')
         (map (\<lambda>c. str_of [c]) ''ABCDEFGHIJKLMNOPQRSTUVWXYZ'')"

text \<open>The lookup contract: the stored value, or the logarithm of the floor.\<close>

definition spec_logProb :: "logp_table \<Rightarrow> pystr \<Rightarrow> pystr \<Rightarrow> real" where
  "spec_logProb logp a c = (case logp (a, c) of Some v \<Rightarrow> v | None \<Rightarrow> ln (1 / 10 ^ 9))"

text \<open>The term one adjacent pair of bytes adds to the bigram score.\<close>

definition spec_pair_term :: "logp_table \<Rightarrow> byte \<Rightarrow> byte \<Rightarrow> real" where
  "spec_pair_term logp x y =
     (case (map_of spec_char_table x, map_of spec_char_table y) of
        (Some a, Some c) \<Rightarrow> spec_logProb logp a c
      | _ \<Rightarrow> - 100)"

text \<open>The identity between a pair of plaintexts and the difference array.\<close>

definition xor_identity :: "bytes \<Rightarrow> bytes \<times> bytes \<Rightarrow> bool" where
  "xor_identity X pr \<longleftrightarrow>
     length (fst pr) = length X \<and> length (snd pr) = length X \<and>
     (\<forall>i < length X. fst pr ! i XOR snd pr ! i = X ! i)"

text \<open>
  What holds of the recorded best pair and score at every point of a run: they are
  the initial values of line 108, or the pair satisfies the identity.
\<close>

definition best_ok :: "bytes \<Rightarrow> (bytes \<times> bytes) \<times> real \<Rightarrow> bool" where
  "best_ok X b \<longleftrightarrow> b = initial_best \<or> xor_identity X (fst b)"

text \<open>
  Two generators, started in the states \<open>g\<close> and \<open>h\<close>, give the same stream of random
  numbers when a relation \<open>R\<close> with \<open>R g h\<close> is kept by every draw and related states
  give equal draws.
\<close>

definition same_draws :: "'g rng_ops \<Rightarrow> 'h rng_ops \<Rightarrow> ('g \<Rightarrow> 'h \<Rightarrow> bool) \<Rightarrow> bool" where
  "same_draws ops1 ops2 R \<longleftrightarrow>
     (\<forall>g h. R g h \<longrightarrow>
        (\<forall>n. fst (randbelow ops1 n g) = fst (randbelow ops2 n h) \<and>
             R (snd (randbelow ops1 n g)) (snd (randbelow ops2 n h))) \<and>
        fst (random_draw ops1 g) = fst (random_draw ops2 h) \<and>
        R (snd (random_draw ops1 g)) (snd (random_draw ops2 h)))"

text \<open>Two search states that differ at most in related generator states.\<close>

definition state_rel :: "('g \<Rightarrow> 'h \<Rightarrow> bool) \<Rightarrow> 'g search_state \<Rightarrow> 'h search_state \<Rightarrow> bool" where
  "state_rel R s t \<longleftrightarrow>
     p1 s = p1 t \<and> cur_score s = cur_score t \<and> best_pair s = best_pair t \<and>
     best_score s = best_score t \<and> R (rng s) (rng t)"

text \<open>The same for the triple that survives a restart.\<close>

definition best_rel :: "('g \<Rightarrow> 'h \<Rightarrow> bool) \<Rightarrow> (bytes \<times> bytes) \<times> real \<times> 'g \<Rightarrow>
    (bytes \<times> bytes) \<times> real \<times> 'h \<Rightarrow> bool" where
  "best_rel R a b \<longleftrightarrow> fst a = fst b \<and> fst (snd a) = fst (snd b) \<and> R (snd (snd a)) (snd (snd b))"

text \<open>
  The sum of row \<open>a\<close> of the loaded counts: of the values of all entries whose row
  character is \<open>a\<close>.
\<close>

definition row_sum :: "((pystr \<times> pystr) \<times> real) list \<Rightarrow> pystr \<Rightarrow> real" where
  "row_sum counts a = sum_list (map snd (filter (\<lambda>e. fst (fst e) = a) counts))"

text \<open>The body of the loop that builds \<^verbatim>\<open>totals\<close>, named for the proofs.\<close>

definition total_step ::
  "(pystr \<times> pystr) \<times> real \<Rightarrow> (pystr \<times> real) list \<Rightarrow> (pystr \<times> real) list" where
  "total_step = (\<lambda>((a, b), v) totals. AList.update a (dict_get (map_of totals) a 0 + v) totals)"

text \<open>
  The cells of a table as the first loop files them when no key occurs twice: the
  key of a cell is its row's first cell, stripped, and the header's entry of its
  column; its count is the cell's number, or zero.
\<close>

definition row_cells ::
  "(pystr \<Rightarrow> real option) \<Rightarrow> pystr list \<Rightarrow> pystr list \<Rightarrow> ((pystr \<times> pystr) \<times> real) list" where
  "row_cells pyfloat header r =
     map (\<lambda>(i, v). ((strip (hd r), header ! i), float_or_zero pyfloat v))
       (zip [0..<length (tl r)] (tl r))"

definition table_cells ::
  "(pystr \<Rightarrow> real option) \<Rightarrow> pystr list \<Rightarrow> pystr list list \<Rightarrow>
   ((pystr \<times> pystr) \<times> real) list" where
  "table_cells pyfloat header body = concat (map (row_cells pyfloat header) body)"

text \<open>
  The probability as claim C5 words it: the ratio, with the floor in its place when
  the ratio is zero or the row total is zero.
\<close>

definition spec_prob :: "real \<Rightarrow> real \<Rightarrow> real" where
  "spec_prob v tot = (if tot = 0 \<or> v / tot = 0 then 1 / 10 ^ 9 else v / tot)"

text \<open>
  What the proof of claim C8 needs of the Unicode tables, and what holds of them: the
  lower-casing of a code point beyond ASCII contains no small ASCII letter other than
  \<open>i\<close> (from the capital I with a dot, U+0130) and \<open>k\<close> (from the Kelvin sign,
  U+212A).
\<close>

definition lower_beyond_ascii :: "(nat \<Rightarrow> pystr) \<Rightarrow> bool" where
  "lower_beyond_ascii ulower \<longleftrightarrow>
     (\<forall>c x. 128 \<le> c \<longrightarrow> x \<in> set (ulower c) \<longrightarrow> 97 \<le> x \<longrightarrow> x \<le> 122 \<longrightarrow> x = 105 \<or> x = 107)"

text \<open>A small ASCII letter other than \<open>i\<close> and \<open>k\<close>.\<close>

definition word_letter :: "nat \<Rightarrow> bool" where
  "word_letter x \<longleftrightarrow> 97 \<le> x \<and> x \<le> 122 \<and> x \<noteq> 105 \<and> x \<noteq> 107"

section \<open>Concrete inputs\<close>

text \<open>
  Two generators for the examples: a counter whose draws below \<open>n\<close> are its value
  modulo \<open>n\<close> and whose draws in the unit interval are one half, and the same
  generator with its counter kept seven ahead.
\<close>

definition counter_rng :: "nat rng_ops" where
  "counter_rng = \<lparr>randbelow = (\<lambda>n g. (g mod n, g + 1)), random_draw = (\<lambda>g. (1 / 2, g + 1))\<rparr>"

definition shifted_rng :: "nat rng_ops" where
  "shifted_rng =
     \<lparr>randbelow = (\<lambda>n g. ((g - 7) mod n, g + 1)), random_draw = (\<lambda>g. (1 / 2, g + 1))\<rparr>"

text \<open>A lower-casing that leaves every code point beyond ASCII as it is.\<close>

definition plain_lower :: "nat \<Rightarrow> pystr" where
  "plain_lower c = [c]"

text \<open>
  A small frequency table, and the state at the start of a restart on the
  difference array \<open>[0, 0]\<close> with the counter at 0.
\<close>

definition example_table :: logp_table where
  "example_table =
     [(str_of '' '', str_of '' '') \<mapsto> 0, (str_of ''A'', str_of '' '') \<mapsto> - 50,
      (str_of '' '', str_of ''D'') \<mapsto> 0]"

definition example_start :: "nat search_state" where
  "example_start = restart_init plain_lower [0, 0] example_table (fst initial_best, snd initial_best, 0)"

text \<open>
  A parser for the examples: it reads the strings of decimal digits, as
  \<^verbatim>\<open>float\<close> does, and rejects every other string.
\<close>

definition digits_float :: "pystr \<Rightarrow> real option" where
  "digits_float s =
     (if s \<noteq> [] \<and> list_all (\<lambda>c. 48 \<le> c \<and> c \<le> 57) s
      then Some (real (fold (\<lambda>c n. 10 * n + (c - 48)) s 0))
      else None)"

text \<open>A table with a ratio below the floor, and one with a cell that is no number.\<close>

definition tiny_ratio_rows :: "pystr list list" where
  "tiny_ratio_rows =
     [[str_of [], str_of ''A'', str_of ''B''],
      [str_of ''A'', str_of ''1'', str_of ''9999999999'']]"

definition example_rows :: "pystr list list" where
  "example_rows =
     [[str_of [], str_of ''A'', str_of ''B''],
      [str_of ''A'', str_of ''3'', str_of ''x''],
      [str_of ''B'', str_of ''0'', str_of ''0'']]"

section \<open>Properties\<close>

subsection \<open>xor_bytes\<close>

lemma zip_take_both: "zip (take (length ys) xs) (take (length xs) ys) = zip xs ys"
proof (induction xs arbitrary: ys)
  case Nil
  then show ?case by simp
next
  case (Cons x xs)
  then show ?case by (cases ys) simp_all
qed

lemma length_xor_bytes: "length (xor_bytes b1 b2) = min (length b1) (length b2)"
  by (simp add: xor_bytes_def)

lemma nth_xor_bytes:
  "i < length b1 \<Longrightarrow> i < length b2 \<Longrightarrow> xor_bytes b1 b2 ! i = b1 ! i XOR b2 ! i"
  by (simp add: xor_bytes_def)

text \<open>
  Claim C10. For all byte sequences \<open>b1\<close> and \<open>b2\<close>, \<open>xor_bytes b1 b2\<close> has the length
  of the shorter argument, and its byte at every position is the exclusive or of the
  two bytes at that position; arguments of unequal length are cut to the shorter
  length, and the function has no error result.
\<close>

theorem xor_bytes_truncating:
  "length (xor_bytes b1 b2) = min (length b1) (length b2) \<and>
   (\<forall>i < min (length b1) (length b2). xor_bytes b1 b2 ! i = b1 ! i XOR b2 ! i) \<and>
   xor_bytes b1 b2 = xor_bytes (take (length b2) b1) (take (length b1) b2)"
  by (simp add: xor_bytes_def zip_take_both)

theorem xor_bytes_truncating_witness:
  "length (xor_bytes [1, 2, 3] [3, 3]) = 2 \<and> xor_bytes [1, 2, 3] [3, 3] ! 1 = 1 \<and>
   xor_bytes [1, 2, 3] [3, 3] = xor_bytes [1, 2] [3, 3]"
  using xor_bytes_truncating [of "[1, 2, 3]" "[3, 3]"]
  by (simp add: xor_bytes_def)

subsection \<open>The character mapping and the bigram score\<close>

lemma table_entries: "\<forall>(k, v) \<in> set spec_char_table. byte_to_char k = Some v"
  by (simp add: spec_char_table_def bytes_of_def str_of_def byte_to_char_def)

lemma table_distinct: "distinct (map fst spec_char_table)"
  by (simp add: spec_char_table_def bytes_of_def str_of_def)

lemma table_keys: "map fst spec_char_table = 32 # map of_nat [65..<91] @ map of_nat [97..<123]"
  by (simp add: spec_char_table_def bytes_of_def str_of_def)

lemma byte_in_range:
  fixes b :: byte
  assumes "lo \<le> unat b" "unat b < hi"
  shows "b \<in> set (map of_nat [lo..<hi])"
proof -
  have "unat b \<in> set [lo..<hi]" using assms by simp
  then have "of_nat (unat b) \<in> (of_nat ` set [lo..<hi] :: byte set)" by (rule imageI)
  then show ?thesis by simp
qed

lemma scoreable_in_keys:
  assumes "byte_to_char b \<noteq> None"
  shows "b \<in> set (map fst spec_char_table)"
proof -
  from assms consider "b = 32" | "65 \<le> b \<and> b \<le> 90" | "97 \<le> b \<and> b \<le> 122"
    by (auto simp: byte_to_char_def split: if_splits)
  then show ?thesis
  proof cases
    case 1
    then show ?thesis by (simp add: table_keys)
  next
    case 2
    then have "65 \<le> unat b" "unat b < 91" by (simp_all add: word_le_nat_alt)
    then have "b \<in> set (map of_nat [65..<91])" by (rule byte_in_range)
    then show ?thesis by (simp only: table_keys set_simps set_append) blast
  next
    case 3
    then have "97 \<le> unat b" "unat b < 123" by (simp_all add: word_le_nat_alt)
    then have "b \<in> set (map of_nat [97..<123])" by (rule byte_in_range)
    then show ?thesis by (simp only: table_keys set_simps set_append) blast
  qed
qed

lemma byte_to_char_table: "byte_to_char b = map_of spec_char_table b"
proof (cases "byte_to_char b")
  case None
  have "map_of spec_char_table b = None"
  proof (rule ccontr)
    assume "map_of spec_char_table b \<noteq> None"
    then obtain v where "map_of spec_char_table b = Some v" by auto
    then have "(b, v) \<in> set spec_char_table" by (rule map_of_SomeD)
    with table_entries have "byte_to_char b = Some v" by auto
    with None show False by simp
  qed
  with None show ?thesis by simp
next
  case (Some v)
  then have "b \<in> set (map fst spec_char_table)" using scoreable_in_keys by simp
  then obtain v' where in_tab: "(b, v') \<in> set spec_char_table" by auto
  with table_entries have "byte_to_char b = Some v'" by auto
  with Some have "v' = v" by simp
  with in_tab table_distinct have "map_of spec_char_table b = Some v" by simp
  with Some show ?thesis by simp
qed

lemma fold_add_sum:
  fixes f :: "nat \<Rightarrow> real"
  shows "fold (\<lambda>i s. s + f i) [0..<n] a = a + (\<Sum>i<n. f i)"
  by (induction n) simp_all

lemma score_step:
  "(let a = byte_to_char x; c = byte_to_char y
    in if a = None \<or> c = None then s + penalty
       else s + dict_get logp (the a, the c) (ln floor_prob)) = s + spec_pair_term logp x y"
  by (auto simp: spec_pair_term_def spec_logProb_def byte_to_char_table [symmetric] dict_get_def
      penalty_def floor_prob_def Let_def split: option.splits)

lemma score_bigram_sum:
  "score_bigram b logp = (\<Sum>i<length b - 1. spec_pair_term logp (b ! i) (b ! (i + 1)))"
  unfolding score_bigram_def score_step by (simp add: fold_add_sum)

text \<open>
  Claim C7. The bigram score of a byte sequence is the sum, over every adjacent pair
  of bytes, of the looked-up log-probability of the two characters when both bytes map
  to scoring characters, and of the penalty \<open>- 100\<close> when either byte does not. The
  mapping from bytes to characters is the table of the specification: byte 32 to the
  space, the bytes 65 to 90 to themselves, the bytes 97 to 122 to the capital letters,
  and every other byte to nothing.
\<close>

theorem score_bigram_sum_of_pair_terms:
  "score_bigram b logp = (\<Sum>i<length b - 1. spec_pair_term logp (b ! i) (b ! (i + 1))) \<and>
   byte_to_char x = map_of spec_char_table x"
  using score_bigram_sum byte_to_char_table by simp

text \<open>
  Claim C6. The lookup of a bigram's log-probability that the scorer makes has no
  error result: for a pair of characters with an entry in the table it is the stored
  value, and for a pair without one it is exactly the logarithm of the floor
  \<open>1 / 10 ^ 9\<close>, a negative real number; the score of a two-byte sequence whose bytes
  map to the characters \<open>a\<close> and \<open>c\<close> is this lookup.
\<close>

theorem logProb_lookup_total:
  "dict_get logp (a, c) (ln floor_prob) =
     (case logp (a, c) of Some v \<Rightarrow> v | None \<Rightarrow> ln (1 / 10 ^ 9)) \<and>
   ln floor_prob < 0 \<and>
   (byte_to_char x = Some a \<longrightarrow> byte_to_char y = Some c \<longrightarrow>
      score_bigram [x, y] logp = (case logp (a, c) of Some v \<Rightarrow> v | None \<Rightarrow> ln (1 / 10 ^ 9)))"
  by (simp add: dict_get_def floor_prob_def score_bigram_def split: option.split)

theorem logProb_lookup_total_witness:
  "byte_to_char 65 = Some [65] \<and> byte_to_char 98 = Some [66] \<and>
   score_bigram [65, 98] Map.empty = ln (1 / 10 ^ 9) \<and>
   score_bigram [65, 98] [([65], [66]) \<mapsto> - 3] = - 3"
  using logProb_lookup_total [of Map.empty "[65]" "[66]" 65 98]
    logProb_lookup_total [of "[([65], [66]) \<mapsto> - 3]" "[65]" "[66]" 65 98]
  by (simp add: byte_to_char_def split: option.split)

subsection \<open>The search: one iteration, one restart, the loops\<close>

lemma accept_simps:
  "p1 (accept X n g s) = p1 s"
  "cur_score (accept X n g s) = n"
  "rng (accept X n g s) = g"
  "best_score (accept X n g s) = max n (best_score s)"
  "best_pair (accept X n g s) = (if best_score s < n then (p1 s, xor_bytes (p1 s) X) else best_pair s)"
  by (simp_all add: accept_def Let_def max_def)

lemma iteration_step:
  assumes "py_randrange ops (length X) (rng s) = Inr (i, g1)"
    and "i < length (p1 s)"
    and "py_choice ops ALPHABET g1 = Inr (proposal, g2)"
  shows "iteration ops ul X logp I it s =
     (let cand = (p1 s)[i := proposal];
          new_score = pair_score ul X logp cand;
          delta = new_score - cur_score s;
          T = max (1 / 100) (1 - real it / real I)
      in if delta \<ge> 0 then Inr (accept X new_score g2 (s\<lparr>p1 := cand\<rparr>))
         else if fst (random_draw ops g2) < exp (delta / T)
         then Inr (accept X new_score (snd (random_draw ops g2)) (s\<lparr>p1 := cand\<rparr>))
         else Inr (s\<lparr>rng := snd (random_draw ops g2)\<rparr>))"
  using assms by (simp add: iteration_def Let_def split: prod.split)

lemma iteration_InrD:
  assumes "iteration ops ul X logp I it s = Inr s'"
  shows "\<exists>i g1 proposal g2.
    py_randrange ops (length X) (rng s) = Inr (i, g1) \<and> i < length (p1 s) \<and>
    py_choice ops ALPHABET g1 = Inr (proposal, g2)"
  using assms by (auto simp: iteration_def split: sum.splits prod.splits if_splits)

lemma for_loop_invariant:
  assumes step: "\<And>i s s'. P s \<Longrightarrow> body i s = Inr s' \<Longrightarrow> P s'"
    and "P s" and "for_loop body ns s = Inr s'"
  shows "P s'"
  using assms(2,3)
proof (induction ns arbitrary: s)
  case Nil
  then show ?case by simp
next
  case (Cons n ns)
  from Cons.prems(2) obtain s1 where b: "body n s = Inr s1" and r: "for_loop body ns s1 = Inr s'"
    by (auto split: sum.splits)
  from step [OF Cons.prems(1) b] have "P s1" .
  from Cons.IH [OF this r] show ?case .
qed

lemma for_loop_append:
  "for_loop body (ms @ ns) s =
     (case for_loop body ms s of Inl e \<Rightarrow> Inl e | Inr s' \<Rightarrow> for_loop body ns s')"
  by (induction ms arbitrary: s) (auto split: sum.splits)

lemma iteration_best_mono:
  assumes "iteration ops ul X logp I it s = Inr s'"
  shows "best_score s \<le> best_score s'"
proof -
  from iteration_InrD [OF assms] obtain i g1 proposal g2 where
    h: "py_randrange ops (length X) (rng s) = Inr (i, g1)" "i < length (p1 s)"
       "py_choice ops ALPHABET g1 = Inr (proposal, g2)" by blast
  from assms show ?thesis
    unfolding iteration_step [OF h]
    by (auto simp: Let_def accept_simps split: if_splits)
qed

lemma inner_loop_best_mono:
  assumes "for_loop (iteration ops ul X logp I) ns s = Inr s'"
  shows "best_score s \<le> best_score s'"
proof -
  have "best_score s \<le> best_score s'"
  proof (rule for_loop_invariant [where P = "\<lambda>t. best_score s \<le> best_score t", OF _ _ assms])
    fix i t t'
    assume "best_score s \<le> best_score t" "iteration ops ul X logp I i t = Inr t'"
    then show "best_score s \<le> best_score t'" using iteration_best_mono by fastforce
  qed simp
  then show ?thesis .
qed

lemma restart_init_simps:
  "best_score (restart_init ul X logp (bp, bs, g)) = bs"
  "best_pair (restart_init ul X logp (bp, bs, g)) = bp"
  "rng (restart_init ul X logp (bp, bs, g)) = g"
  "p1 (restart_init ul X logp (bp, bs, g)) = replicate (length X) 32"
  "cur_score (restart_init ul X logp (bp, bs, g)) = pair_score ul X logp (replicate (length X) 32)"
  by (simp_all add: restart_init_def Let_def)

lemma restart_best_mono:
  assumes "restart ops ul X logp I r (bp, bs, g) = Inr (bp', bs', g')"
  shows "bs \<le> bs'"
proof -
  from assms obtain s' where
    l: "for_loop (iteration ops ul X logp I) [0..<I] (restart_init ul X logp (bp, bs, g)) = Inr s'"
    and e: "bs' = best_score s'"
    by (auto simp: restart_def split: sum.splits)
  from inner_loop_best_mono [OF l] e show ?thesis by (simp add: restart_init_simps)
qed

lemma outer_loop_best_mono:
  assumes "for_loop (restart ops ul X logp I) rs st = Inr st'"
  shows "fst (snd st) \<le> fst (snd st')"
proof (rule for_loop_invariant [where P = "\<lambda>t. fst (snd st) \<le> fst (snd t)", OF _ _ assms])
  fix i t t'
  assume a: "fst (snd st) \<le> fst (snd t)" "restart ops ul X logp I i t = Inr t'"
  obtain bp bs g where t: "t = (bp, bs, g)" by (cases t)
  obtain bp' bs' g' where t': "t' = (bp', bs', g')" by (cases t')
  from a(2) have "bs \<le> bs'" unfolding t t' by (rule restart_best_mono)
  with a(1) show "fst (snd st) \<le> fst (snd t')" by (simp add: t t')
qed simp

lemma iteration_length:
  assumes "iteration ops ul X logp I it s = Inr s'"
  shows "length (p1 s') = length (p1 s)"
proof -
  from iteration_InrD [OF assms] obtain i g1 proposal g2 where
    h: "py_randrange ops (length X) (rng s) = Inr (i, g1)" "i < length (p1 s)"
       "py_choice ops ALPHABET g1 = Inr (proposal, g2)" by blast
  from assms show ?thesis
    unfolding iteration_step [OF h]
    by (auto simp: Let_def accept_simps split: if_splits)
qed

lemma xor_identity_recorded:
  assumes "length c = length X"
  shows "xor_identity X (c, xor_bytes c X)"
  using assms by (simp add: xor_identity_def length_xor_bytes nth_xor_bytes xor.assoc [symmetric])

lemma iteration_records:
  assumes "iteration ops ul X logp I it s = Inr s'" and "length (p1 s) = length X"
  shows "(best_pair s' = best_pair s \<and> best_score s' = best_score s) \<or>
         xor_identity X (best_pair s')"
proof -
  from iteration_InrD [OF assms(1)] obtain i g1 proposal g2 where
    h: "py_randrange ops (length X) (rng s) = Inr (i, g1)" "i < length (p1 s)"
       "py_choice ops ALPHABET g1 = Inr (proposal, g2)" by blast
  have "xor_identity X ((p1 s)[i := proposal], xor_bytes ((p1 s)[i := proposal]) X)"
    by (rule xor_identity_recorded) (simp add: assms(2))
  with assms(1) show ?thesis
    unfolding iteration_step [OF h]
    by (auto simp: Let_def accept_simps max_def split: if_splits)
qed

lemma inner_loop_best_ok:
  assumes "for_loop (iteration ops ul X logp I) ns s = Inr s'"
    and "length (p1 s) = length X" and "best_ok X (best_pair s, best_score s)"
  shows "best_ok X (best_pair s', best_score s')"
proof -
  have "length (p1 s') = length X \<and> best_ok X (best_pair s', best_score s')"
  proof (rule for_loop_invariant
      [where P = "\<lambda>t. length (p1 t) = length X \<and> best_ok X (best_pair t, best_score t)",
        OF _ _ assms(1)])
    fix i t t'
    assume a: "length (p1 t) = length X \<and> best_ok X (best_pair t, best_score t)"
      and b: "iteration ops ul X logp I i t = Inr t'"
    from iteration_length [OF b] a have "length (p1 t') = length X" by simp
    moreover from iteration_records [OF b] a
    have "best_ok X (best_pair t', best_score t')" by (auto simp: best_ok_def)
    ultimately show "length (p1 t') = length X \<and> best_ok X (best_pair t', best_score t')" ..
  qed (simp add: assms)
  then show ?thesis ..
qed

lemma restart_best_ok:
  assumes "restart ops ul X logp I r (bp, bs, g) = Inr (bp', bs', g')" and "best_ok X (bp, bs)"
  shows "best_ok X (bp', bs')"
proof -
  from assms(1) obtain s' where
    l: "for_loop (iteration ops ul X logp I) [0..<I] (restart_init ul X logp (bp, bs, g)) = Inr s'"
    and e: "bp' = best_pair s'" "bs' = best_score s'"
    by (auto simp: restart_def split: sum.splits)
  from inner_loop_best_ok [OF l] assms(2) e show ?thesis by (simp add: restart_init_simps)
qed

lemma outer_loop_best_ok:
  assumes "for_loop (restart ops ul X logp I) rs st = Inr st'"
    and "best_ok X (fst st, fst (snd st))"
  shows "best_ok X (fst st', fst (snd st'))"
proof (rule for_loop_invariant [where P = "\<lambda>t. best_ok X (fst t, fst (snd t))", OF _ _ assms(1)])
  fix i t t'
  assume a: "best_ok X (fst t, fst (snd t))" "restart ops ul X logp I i t = Inr t'"
  obtain bp bs g where t: "t = (bp, bs, g)" by (cases t)
  obtain bp' bs' g' where t': "t' = (bp', bs', g')" by (cases t')
  from a have "best_ok X (bp', bs')" unfolding t t' by (simp add: restart_best_ok)
  then show "best_ok X (fst t', fst (snd t'))" by (simp add: t')
qed (rule assms(2))

lemma hillclimb_InrD:
  assumes "hillclimb ops ul X logp R I g = Inr (bp, bs)"
  shows "\<exists>g'. for_loop (restart ops ul X logp I) [0..<R] (fst initial_best, snd initial_best, g)
           = Inr (bp, bs, g')"
  using assms by (auto simp: hillclimb_def hillclimb_run_def split: sum.splits)

lemma hillclimb_best_ok:
  assumes "hillclimb ops ul X logp R I g = Inr (bp, bs)"
  shows "best_ok X (bp, bs)"
proof -
  from hillclimb_InrD [OF assms] obtain g' where
    l: "for_loop (restart ops ul X logp I) [0..<R] (fst initial_best, snd initial_best, g)
           = Inr (bp, bs, g')" ..
  from outer_loop_best_ok [OF l] show ?thesis by (simp add: best_ok_def)
qed

lemma iteration_empty: "iteration ops ul [] logp I it s = Inl ValueError"
  by (simp add: iteration_def py_randrange_def)

lemma restart_empty: "0 < I \<Longrightarrow> restart ops ul [] logp I r st = Inl ValueError"
  by (simp add: restart_def upt_conv_Cons iteration_empty)

lemma hillclimb_empty:
  "0 < R \<Longrightarrow> 0 < I \<Longrightarrow> hillclimb ops ul [] logp R I g = Inl ValueError"
  by (simp add: hillclimb_def hillclimb_run_def upt_conv_Cons restart_empty)

subsection \<open>A concrete run\<close>

lemma exp_minus_100: "exp (- 100 :: real) < 1 / 10 ^ 9"
proof -
  have "(2::real) \<le> exp 1" using exp_ge_add_one_self [of "1::real"] by simp
  then have "(2::real) ^ 100 \<le> exp 1 ^ 100" by (rule power_mono) simp
  also have "\<dots> = exp (100::real)" by (simp add: exp_of_nat_mult [symmetric])
  finally have "(10::real) ^ 9 < exp 100" by simp
  then have "1 / exp (100::real) < 1 / 10 ^ 9" by (simp add: frac_less2)
  then show ?thesis by (simp add: exp_minus inverse_eq_divide)
qed

lemma exp_minus_100_half: "\<not> 1 / 2 < exp (- 100 :: real)"
  using exp_minus_100 by simp

lemmas score_defs =
  bytes_of_def combined_score_def score_bigram_def byte_to_char_def dict_get_def
  word_bonus_score_def str_lower_def COMMON_WORDS_def str_of_def
  example_table_def plain_lower_def penalty_def floor_prob_def is_cont_def second_ok_def
  Let_def str_count.simps

lemma example_scores:
  "combined_score plain_lower [32, 32] example_table = 0"
  "combined_score plain_lower [65, 32] example_table = - 50"
  "combined_score plain_lower [32, 68] example_table = 0"
  by (simp_all add: score_defs)

lemma example_pair_scores:
  "pair_score plain_lower [0, 0] example_table [32, 32] = 0"
  "pair_score plain_lower [0, 0] example_table [65, 32] = - 100"
  "pair_score plain_lower [0, 0] example_table [32, 68] = 0"
  by (simp_all add: pair_score_def xor_bytes_def example_scores)

lemma example_start_eq:
  "example_start =
     \<lparr>p1 = [32, 32], cur_score = 0, best_pair = ([], []), best_score = - (10 ^ 18), rng = 0\<rparr>"
  by (simp add: example_start_def restart_init_def initial_best_def example_pair_scores)

lemma example_length: "length [0, 0 :: byte] = 2"
  by simp

lemma example_draws:
  "py_randrange counter_rng (length [0, 0 :: byte]) 0 = Inr (0, 1)"
  "py_choice counter_rng ALPHABET 1 = Inr (65, 2)"
  "random_draw counter_rng 2 = (1 / 2, 3)"
  "py_randrange counter_rng (length [0, 0 :: byte]) 3 = Inr (1, 4)"
  "py_choice counter_rng ALPHABET 4 = Inr (68, 5)"
  unfolding example_length
  by (simp_all add: py_randrange_def py_choice_def counter_rng_def ALPHABET_def bytes_of_def)

lemma example_first_iteration:
  "iteration counter_rng plain_lower [0, 0] example_table 2 0 example_start =
     Inr (example_start\<lparr>rng := 3\<rparr>)"
proof -
  have r: "py_randrange counter_rng (length [0, 0 :: byte]) (rng example_start) = Inr (0, 1)"
    using example_draws(1) by (simp add: example_start_eq)
  have i: "0 < length (p1 example_start)"
    by (simp add: example_start_eq)
  show ?thesis
    unfolding iteration_step [OF r i example_draws(2)]
    using exp_minus_100_half
    by (simp add: example_start_eq example_draws example_pair_scores Let_def)
qed

lemma example_second_iteration:
  "iteration counter_rng plain_lower [0, 0] example_table 2 (Suc 0) (example_start\<lparr>rng := 3\<rparr>) =
     Inr \<lparr>p1 = [32, 68], cur_score = 0, best_pair = ([32, 68], [32, 68]), best_score = 0,
          rng = 5\<rparr>"
proof -
  have r: "py_randrange counter_rng (length [0, 0 :: byte]) (rng (example_start\<lparr>rng := 3\<rparr>))
             = Inr (1, 4)"
    using example_draws(4) by simp
  have i: "1 < length (p1 (example_start\<lparr>rng := 3\<rparr>))"
    by (simp add: example_start_eq)
  show ?thesis
    unfolding iteration_step [OF r i example_draws(5)]
    by (simp add: example_start_eq example_pair_scores accept_def xor_bytes_def Let_def)
qed

lemma example_restart:
  "restart counter_rng plain_lower [0, 0] example_table 2 0 (fst initial_best, snd initial_best, 0) =
     Inr (([32, 68], [32, 68]), 0, 5)"
proof -
  have "[0..<2] = [0, Suc 0]" by (simp add: upt_conv_Cons)
  then show ?thesis
    by (simp add: restart_def example_start_def [symmetric]
        example_first_iteration example_second_iteration)
qed

lemma example_hillclimb:
  "hillclimb counter_rng plain_lower [0, 0] example_table 1 2 0 = Inr (([32, 68], [32, 68]), 0)"
  by (simp add: hillclimb_def hillclimb_run_def example_restart)

subsection \<open>The search: the claims\<close>

text \<open>
  Claim C1. Every pair that the search records as its best satisfies the identity
  with the difference array \<open>X\<close>: both members have the length of \<open>X\<close>, and at
  every position their exclusive or is the byte of \<open>X\<close>. An iteration that starts
  with a candidate of the length of \<open>X\<close> keeps that length, and either leaves the
  recorded pair and score as they were or records a pair with the identity; a restart
  starts with a candidate of that length; and the pair that \<open>hillclimb\<close> returns is
  the initial pair of line 108, when nothing was ever recorded, or a pair with the
  identity.
\<close>

theorem recorded_pair_xor_identity:
  "(iteration ops ul X logp I it s = Inr s' \<longrightarrow> length (p1 s) = length X \<longrightarrow>
      length (p1 s') = length X \<and>
      ((best_pair s' = best_pair s \<and> best_score s' = best_score s) \<or>
       xor_identity X (best_pair s'))) \<and>
   length (p1 (restart_init ul X logp st)) = length X \<and>
   (hillclimb ops ul X logp R I g = Inr (bp, bs) \<longrightarrow>
      (bp, bs) = initial_best \<or> xor_identity X bp)"
proof (intro conjI impI)
  assume a: "iteration ops ul X logp I it s = Inr s'" and l: "length (p1 s) = length X"
  from iteration_length [OF a] l show "length (p1 s') = length X" by simp
  from iteration_records [OF a l]
  show "(best_pair s' = best_pair s \<and> best_score s' = best_score s) \<or>
       xor_identity X (best_pair s')" .
next
  show "length (p1 (restart_init ul X logp st)) = length X"
    by (cases st) (simp add: restart_init_def Let_def)
next
  assume "hillclimb ops ul X logp R I g = Inr (bp, bs)"
  from hillclimb_best_ok [OF this] show "(bp, bs) = initial_best \<or> xor_identity X bp"
    by (simp add: best_ok_def)
qed

theorem recorded_pair_xor_identity_witness:
  "iteration counter_rng plain_lower [0, 0] example_table 2 (Suc 0) (example_start\<lparr>rng := 3\<rparr>) =
     Inr \<lparr>p1 = [32, 68], cur_score = 0, best_pair = ([32, 68], [32, 68]), best_score = 0,
          rng = 5\<rparr> \<and>
   length (p1 (example_start\<lparr>rng := 3\<rparr>)) = length [0, 0 :: byte] \<and>
   xor_identity [0, 0] ([32, 68], [32, 68]) \<and>
   hillclimb counter_rng plain_lower [0, 0] example_table 1 2 0 = Inr (([32, 68], [32, 68]), 0) \<and>
   (([32, 68], [32, 68]), 0) \<noteq> initial_best"
proof -
  have l: "length (p1 (example_start\<lparr>rng := 3\<rparr>)) = length [0, 0 :: byte]"
    by (simp add: example_start_eq)
  have n: "best_score \<lparr>p1 = [32, 68], cur_score = 0, best_pair = ([32, 68], [32, 68]),
      best_score = 0, rng = 5 :: nat\<rparr> \<noteq> best_score (example_start\<lparr>rng := 3\<rparr>)"
    by (simp add: example_start_eq)
  have i: "(([32, 68], [32, 68]), 0) \<noteq> initial_best"
    by (simp add: initial_best_def)
  from recorded_pair_xor_identity
    [where ops = counter_rng and ul = plain_lower and X = "[0, 0]" and logp = example_table
      and I = 2 and it = "Suc 0" and s = "example_start\<lparr>rng := 3\<rparr>"
      and s' = "\<lparr>p1 = [32, 68], cur_score = 0, best_pair = ([32, 68], [32, 68]),
                 best_score = 0, rng = 5\<rparr>"
      and st = "(fst initial_best, snd initial_best, 0)" and R = 1 and g = 0
      and bp = "([32, 68], [32, 68])" and bs = 0]
    example_second_iteration example_hillclimb l n i
  show ?thesis by auto
qed

text \<open>
  Claim C2. Throughout a run the recorded best score never decreases: not in one
  iteration, not over any stretch of iterations, not in one restart, not over any
  stretch of restarts, and the returned score is at least the initial one. The start
  of a restart sets the candidate to spaces and leaves the recorded best pair and
  score as they are.
\<close>

theorem best_score_monotone:
  "(iteration ops ul X logp I it s = Inr s' \<longrightarrow> best_score s \<le> best_score s') \<and>
   (for_loop (iteration ops ul X logp I) ns s = Inr s'' \<longrightarrow> best_score s \<le> best_score s'') \<and>
   best_score (restart_init ul X logp (bp, bs, g)) = bs \<and>
   best_pair (restart_init ul X logp (bp, bs, g)) = bp \<and>
   p1 (restart_init ul X logp (bp, bs, g)) = replicate (length X) 32 \<and>
   (restart ops ul X logp I r (bp, bs, g) = Inr (bp', bs', g') \<longrightarrow> bs \<le> bs') \<and>
   (for_loop (restart ops ul X logp I) rs (bp, bs, g) = Inr (bp'', bs'', g'') \<longrightarrow> bs \<le> bs'') \<and>
   (hillclimb ops ul X logp R I g = Inr (q, sc) \<longrightarrow> snd initial_best \<le> sc)"
proof (intro conjI impI)
  assume "iteration ops ul X logp I it s = Inr s'"
  then show "best_score s \<le> best_score s'" by (rule iteration_best_mono)
next
  assume "for_loop (iteration ops ul X logp I) ns s = Inr s''"
  then show "best_score s \<le> best_score s''" by (rule inner_loop_best_mono)
next
  assume "restart ops ul X logp I r (bp, bs, g) = Inr (bp', bs', g')"
  then show "bs \<le> bs'" by (rule restart_best_mono)
next
  assume "for_loop (restart ops ul X logp I) rs (bp, bs, g) = Inr (bp'', bs'', g'')"
  from outer_loop_best_mono [OF this] show "bs \<le> bs''" by simp
next
  assume "hillclimb ops ul X logp R I g = Inr (q, sc)"
  from hillclimb_InrD [OF this] obtain g' where
    "for_loop (restart ops ul X logp I) [0..<R] (fst initial_best, snd initial_best, g)
       = Inr (q, sc, g')" ..
  from outer_loop_best_mono [OF this] show "snd initial_best \<le> sc" by simp
qed (simp_all add: restart_init_simps)

theorem best_score_monotone_witness:
  "iteration counter_rng plain_lower [0, 0] example_table 2 (Suc 0) (example_start\<lparr>rng := 3\<rparr>) =
     Inr \<lparr>p1 = [32, 68], cur_score = 0, best_pair = ([32, 68], [32, 68]), best_score = 0,
          rng = 5\<rparr> \<and>
   best_score (example_start\<lparr>rng := 3\<rparr>) = - (10 ^ 18) \<and>
   restart counter_rng plain_lower [0, 0] example_table 2 0 (fst initial_best, snd initial_best, 0) =
     Inr (([32, 68], [32, 68]), 0, 5) \<and>
   hillclimb counter_rng plain_lower [0, 0] example_table 1 2 0 = Inr (([32, 68], [32, 68]), 0) \<and>
   snd initial_best \<le> 0"
  using best_score_monotone
    [where ops = counter_rng and ul = plain_lower and X = "[0, 0]" and logp = example_table
      and I = 2 and it = "Suc 0" and s = "example_start\<lparr>rng := 3\<rparr>"
      and s' = "\<lparr>p1 = [32, 68], cur_score = 0, best_pair = ([32, 68], [32, 68]),
                 best_score = 0, rng = 5\<rparr>"
      and bp = "fst initial_best" and bs = "snd initial_best" and g = 0 and r = 0
      and bp' = "([32, 68], [32, 68])" and bs' = 0 and g' = 5 and R = 1
      and q = "([32, 68], [32, 68])" and sc = 0]
    example_second_iteration example_restart example_hillclimb
  by (simp add: example_start_eq initial_best_def)

text \<open>
  Claim C3. In iteration \<open>it\<close> of \<open>I\<close>, with the position \<open>i\<close> and the byte
  \<open>proposal\<close> drawn, \<open>delta\<close> the new score minus the current one and
  \<open>T = max 0.01 (1 - it / I)\<close>, the mutation is accepted exactly when \<open>0 \<le> delta\<close>
  or the uniform draw \<open>u\<close> is below \<open>exp (delta / T)\<close>. On acceptance the candidate
  is the mutated one and the current score is the new score; otherwise the byte is
  put back, so the candidate, the current score and the recorded best are unchanged.
\<close>

theorem acceptance_rule:
  assumes "py_randrange ops (length X) (rng s) = Inr (i, g1)"
    and "i < length (p1 s)"
    and "py_choice ops ALPHABET g1 = Inr (proposal, g2)"
  shows "\<exists>s'. iteration ops ul X logp I it s = Inr s' \<and>
     (let new_score = pair_score ul X logp ((p1 s)[i := proposal]);
          delta = new_score - cur_score s;
          T = max (1 / 100) (1 - real it / real I);
          u = fst (random_draw ops g2)
      in if delta \<ge> 0 \<or> u < exp (delta / T)
         then p1 s' = (p1 s)[i := proposal] \<and> cur_score s' = new_score
         else p1 s' = p1 s \<and> cur_score s' = cur_score s \<and>
              best_pair s' = best_pair s \<and> best_score s' = best_score s)"
  unfolding iteration_step [OF assms]
  by (simp add: Let_def accept_simps)

theorem acceptance_rule_witness:
  "(\<exists>s'. iteration counter_rng plain_lower [0, 0] example_table 2 0 example_start = Inr s' \<and>
      p1 s' = p1 example_start \<and> cur_score s' = cur_score example_start) \<and>
   (\<exists>s'. iteration counter_rng plain_lower [0, 0] example_table 2 (Suc 0)
           (example_start\<lparr>rng := 3\<rparr>) = Inr s' \<and>
      p1 s' = [32, 68] \<and> cur_score s' = 0)"
proof -
  have r0: "py_randrange counter_rng (length [0, 0 :: byte]) (rng example_start) = Inr (0, 1)"
    using example_draws(1) by (simp add: example_start_eq)
  have i0: "0 < length (p1 example_start)"
    by (simp add: example_start_eq)
  have r1: "py_randrange counter_rng (length [0, 0 :: byte]) (rng (example_start\<lparr>rng := 3\<rparr>))
             = Inr (1, 4)"
    using example_draws(4) by simp
  have i1: "1 < length (p1 (example_start\<lparr>rng := 3\<rparr>))"
    by (simp add: example_start_eq)
  from acceptance_rule [OF r0 i0 example_draws(2), of plain_lower example_table 2 0]
    acceptance_rule [OF r1 i1 example_draws(5), of plain_lower example_table 2 "Suc 0"]
    exp_minus_100_half
  show ?thesis
    by (auto simp add: example_start_eq example_draws example_pair_scores Let_def)
qed

text \<open>
  Claim C4, as amended. On a difference array of length zero, with positive numbers
  of restarts and iterations, \<open>hillclimb\<close> returns no pair: the first iteration of
  the first restart draws a position with \<^verbatim>\<open>random.randrange(0)\<close>, which raises
  \<^verbatim>\<open>ValueError\<close>. The claim as written (a zero-length pair is returned) fails at
  the default counts 20 and 3000.
\<close>

theorem hillclimb_empty_raises:
  "0 < R \<Longrightarrow> 0 < I \<Longrightarrow> hillclimb ops ul [] logp R I g = Inl ValueError"
  by (rule hillclimb_empty)

theorem hillclimb_empty_raises_witness:
  "(0::nat) < 20 \<and> (0::nat) < 3000 \<and>
   hillclimb counter_rng plain_lower [] example_table 20 3000 0 = Inl ValueError"
  using hillclimb_empty_raises [of 20 3000 counter_rng plain_lower example_table 0] by simp

theorem hillclimb_empty_counterexample:
  "hillclimb counter_rng plain_lower [] Map.empty 20 3000 0 = Inl ValueError"
  by (simp add: hillclimb_empty)

subsection \<open>Determinism under a fixed stream of random numbers\<close>

lemma same_drawsD:
  assumes "same_draws ops1 ops2 R" and "R g h"
  shows "fst (randbelow ops1 n g) = fst (randbelow ops2 n h)"
    and "R (snd (randbelow ops1 n g)) (snd (randbelow ops2 n h))"
    and "fst (random_draw ops1 g) = fst (random_draw ops2 h)"
    and "R (snd (random_draw ops1 g)) (snd (random_draw ops2 h))"
  using assms unfolding same_draws_def by blast+

lemma py_randrange_rel:
  assumes "same_draws ops1 ops2 R" and "R g h"
  shows "rel_sum (=) (rel_prod (=) R) (py_randrange ops1 k g) (py_randrange ops2 k h)"
  using same_drawsD(1,2) [OF assms, of k]
  by (simp add: py_randrange_def rel_prod_sel)

lemma py_choice_rel:
  assumes "same_draws ops1 ops2 R" and "R g h"
  shows "rel_sum (=) (rel_prod (=) R) (py_choice ops1 xs g) (py_choice ops2 xs h)"
  using same_drawsD(1,2) [OF assms, of "length xs"]
  by (auto simp: py_choice_def split: prod.split)

lemma accept_rel:
  assumes "state_rel R s t" and "R g h"
  shows "state_rel R (accept X n g s) (accept X n h t)"
  using assms by (simp add: state_rel_def accept_simps)

lemma iteration_rel:
  assumes sd: "same_draws ops1 ops2 R" and st: "state_rel R s t"
  shows "rel_sum (=) (state_rel R) (iteration ops1 ul X logp I it s) (iteration ops2 ul X logp I it t)"
proof -
  from st have eqs: "p1 s = p1 t" "cur_score s = cur_score t" and r: "R (rng s) (rng t)"
    by (simp_all add: state_rel_def)
  show ?thesis
  proof (cases "py_randrange ops1 (length X) (rng s)")
    case (Inl e)
    with py_randrange_rel [OF sd r, of "length X"] show ?thesis
      by (auto simp: iteration_def elim: rel_sum.cases)
  next
    case (Inr ig)
    obtain i g1 where ig: "ig = (i, g1)" by (cases ig)
    with Inr py_randrange_rel [OF sd r, of "length X"] obtain h1 where
      r2: "py_randrange ops2 (length X) (rng t) = Inr (i, h1)" and r1: "R g1 h1"
      by (auto elim!: rel_sum.cases)
    show ?thesis
    proof (cases "i < length (p1 s)")
      case False
      with Inr ig r2 eqs show ?thesis by (simp add: iteration_def)
    next
      case True
      show ?thesis
      proof (cases "py_choice ops1 ALPHABET g1")
        case (Inl e)
        with py_choice_rel [OF sd r1, of ALPHABET] Inr ig r2 eqs show ?thesis
          by (auto simp: iteration_def elim: rel_sum.cases)
      next
        case c: (Inr pg)
        obtain proposal g2 where pg: "pg = (proposal, g2)" by (cases pg)
        with c py_choice_rel [OF sd r1, of ALPHABET] obtain h2 where
          c2: "py_choice ops2 ALPHABET h1 = Inr (proposal, h2)" and rr: "R g2 h2"
          by (auto elim!: rel_sum.cases)
        have c1: "py_choice ops1 ALPHABET g1 = Inr (proposal, g2)" using c pg by simp
        have i1: "py_randrange ops1 (length X) (rng s) = Inr (i, g1)" using Inr ig by simp
        have t2: "i < length (p1 t)" using True eqs by simp
        have st': "state_rel R (s\<lparr>p1 := (p1 s)[i := proposal]\<rparr>) (t\<lparr>p1 := (p1 t)[i := proposal]\<rparr>)"
          using st by (simp add: state_rel_def)
        have st3: "state_rel R (s\<lparr>rng := snd (random_draw ops1 g2)\<rparr>)
                     (t\<lparr>rng := snd (random_draw ops2 h2)\<rparr>)"
          using st same_drawsD(4) [OF sd rr] by (simp add: state_rel_def)
        show ?thesis
          unfolding iteration_step [OF i1 True c1] iteration_step [OF r2 t2 c2]
          using accept_rel [OF st' rr] accept_rel [OF st' same_drawsD(4) [OF sd rr]] st3
            same_drawsD(3) [OF sd rr] eqs
          by (simp add: Let_def)
      qed
    qed
  qed
qed

lemma for_loop_rel:
  assumes step: "\<And>i s t. Q s t \<Longrightarrow> rel_sum (=) Q (b1 i s) (b2 i t)" and "Q s t"
  shows "rel_sum (=) Q (for_loop b1 ns s) (for_loop b2 ns t)"
  using assms(2)
proof (induction ns arbitrary: s t)
  case Nil
  then show ?case by simp
next
  case (Cons n ns)
  from step [OF Cons.prems, of n] Cons.IH show ?case
    by (auto elim!: rel_sum.cases)
qed

lemma restart_rel:
  assumes sd: "same_draws ops1 ops2 R" and "best_rel R a b"
  shows "rel_sum (=) (best_rel R) (restart ops1 ul X logp I r a) (restart ops2 ul X logp I r b)"
proof -
  have "state_rel R (restart_init ul X logp a) (restart_init ul X logp b)"
    using assms(2) by (cases a; cases b) (simp add: state_rel_def best_rel_def restart_init_simps)
  from for_loop_rel [where Q = "state_rel R", OF iteration_rel [OF sd] this]
  have "rel_sum (=) (state_rel R)
     (for_loop (iteration ops1 ul X logp I) [0..<I] (restart_init ul X logp a))
     (for_loop (iteration ops2 ul X logp I) [0..<I] (restart_init ul X logp b))" .
  then show ?thesis
    by (auto simp: restart_def best_rel_def state_rel_def elim!: rel_sum.cases)
qed

lemma hillclimb_rel:
  assumes sd: "same_draws ops1 ops2 R" and "R g h"
  shows "hillclimb ops1 ul X logp Rn I g = hillclimb ops2 ul X logp Rn I h"
proof -
  have "best_rel R (fst initial_best, snd initial_best, g) (fst initial_best, snd initial_best, h)"
    using assms(2) by (simp add: best_rel_def)
  from for_loop_rel [where Q = "best_rel R", OF restart_rel [OF sd] this]
  have "rel_sum (=) (best_rel R)
     (hillclimb_run ops1 ul X logp Rn I g) (hillclimb_run ops2 ul X logp Rn I h)"
    unfolding hillclimb_run_def .
  then show ?thesis
    by (auto simp: hillclimb_def best_rel_def elim!: rel_sum.cases)
qed

lemma example_same_draws: "same_draws counter_rng shifted_rng (\<lambda>g h. h = g + 7)"
  by (simp add: same_draws_def counter_rng_def shifted_rng_def)

text \<open>
  Claim C9. Two runs of \<open>hillclimb\<close> on the same difference array, frequency table
  and numbers of restarts and iterations, fed the same stream of random numbers,
  produce the same result: the same best pair and best score, or the same error. The
  streams are the same when the two generators, whatever their states are, give equal
  draws from related states and keep the relation.
\<close>

theorem hillclimb_deterministic:
  assumes "same_draws ops1 ops2 R" and "R g h"
  shows "hillclimb ops1 ul X logp restarts iterations g =
         hillclimb ops2 ul X logp restarts iterations h"
  using assms by (rule hillclimb_rel)

theorem hillclimb_deterministic_witness:
  "same_draws counter_rng shifted_rng (\<lambda>g h. h = g + 7) \<and>
   hillclimb counter_rng plain_lower [0, 0] example_table 1 2 0 =
     hillclimb shifted_rng plain_lower [0, 0] example_table 1 2 7 \<and>
   hillclimb shifted_rng plain_lower [0, 0] example_table 1 2 7 = Inr (([32, 68], [32, 68]), 0)"
proof -
  have r: "(7::nat) = 0 + 7" by simp
  from hillclimb_deterministic [OF example_same_draws r, of plain_lower "[0, 0]" example_table 1 2]
    example_hillclimb example_same_draws
  show ?thesis by simp
qed

subsection \<open>The frequency table\<close>

lemma total_step_get:
  "dict_get (map_of (total_step ((a, b), v) tot)) a' 0 =
     dict_get (map_of tot) a' 0 + (if a' = a then v else 0)"
  by (simp add: total_step_def dict_get_def update_conv')

lemma total_step_dom:
  "dom (map_of (total_step ((a, b), v) tot)) = insert a (dom (map_of tot))"
  by (simp add: total_step_def update_conv')

lemma fold_total_get:
  "dict_get (map_of (fold total_step counts tot)) a 0 =
     dict_get (map_of tot) a 0 + row_sum counts a"
proof (induction counts arbitrary: tot)
  case Nil
  then show ?case by (simp add: row_sum_def)
next
  case (Cons e counts)
  obtain a' b v where e: "e = ((a', b), v)" by (cases e) auto
  show ?case by (simp add: Cons.IH e total_step_get row_sum_def)
qed

lemma fold_total_dom:
  "dom (map_of (fold total_step counts tot)) = dom (map_of tot) \<union> (fst \<circ> fst) ` set counts"
proof (induction counts arbitrary: tot)
  case Nil
  then show ?case by simp
next
  case (Cons e counts)
  obtain a' b v where e: "e = ((a', b), v)" by (cases e) auto
  show ?case by (simp add: Cons.IH e total_step_dom)
qed

lemma row_totals_lookup:
  assumes "((a, b), v) \<in> set counts"
  shows "map_of (row_totals counts) a = Some (row_sum counts a)"
proof -
  have rt: "row_totals counts = fold total_step counts []"
    by (simp add: row_totals_def total_step_def)
  have "a \<in> dom (map_of (row_totals counts))"
    unfolding rt fold_total_dom using assms by force
  then obtain t where t: "map_of (row_totals counts) a = Some t" by auto
  have "dict_get (map_of (row_totals counts)) a 0 = row_sum counts a"
    unfolding rt fold_total_get by (simp add: dict_get_def)
  with t show ?thesis by (simp add: dict_get_def)
qed

lemma logp_loop_result:
  assumes "distinct (map fst items)"
    and "\<And>a b v. ((a, b), v) \<in> set items \<Longrightarrow> map_of totals a = Some (T a)"
  shows "logp_loop totals items logp0 =
     Inr (\<lambda>k. case map_of items k of
                 Some v \<Rightarrow> Some (ln (clamp_prob v (T (fst k))))
               | None \<Rightarrow> logp0 k)"
  using assms
proof (induction items arbitrary: logp0)
  case Nil
  then show ?case by simp
next
  case (Cons e items)
  obtain a b v where e: "e = ((a, b), v)" by (cases e) auto
  have t: "map_of totals a = Some (T a)" using Cons.prems(2) [of a b v] by (simp add: e)
  have d: "distinct (map fst items)" and n: "(a, b) \<notin> fst ` set items"
    using Cons.prems(1) by (simp_all add: e)
  have IH: "logp_loop totals items (logp0((a, b) \<mapsto> ln (clamp_prob v (T a)))) =
     Inr (\<lambda>k. case map_of items k of
                 Some v \<Rightarrow> Some (ln (clamp_prob v (T (fst k))))
               | None \<Rightarrow> (logp0((a, b) \<mapsto> ln (clamp_prob v (T a)))) k)"
    by (rule Cons.IH [OF d]) (use Cons.prems(2) in auto)
  have m: "map_of items (a, b) = None" using n by (simp add: map_of_eq_None_iff)
  show ?case
    unfolding e by (auto simp: t IH m fun_eq_iff split: option.splits)
qed

lemma count_cells_distinct:
  assumes "count_cells pf header a i vs counts = Inr counts'" and "distinct (map fst counts)"
  shows "distinct (map fst counts')"
  using assms
  by (induction pf header a i vs counts rule: count_cells.induct)
    (auto simp: distinct_update split: if_splits)

lemma count_rows_distinct:
  assumes "count_rows pf header rs counts = Inr counts'" and "distinct (map fst counts)"
  shows "distinct (map fst counts')"
  using assms
proof (induction rs arbitrary: counts)
  case Nil
  then show ?case by simp
next
  case (Cons r rs)
  from Cons.prems(1) obtain r0 vs c1 where r: "r = r0 # vs"
    and c: "count_cells pf header (strip r0) 0 vs counts = Inr c1"
    and k: "count_rows pf header rs c1 = Inr counts'"
    by (auto split: list.splits sum.splits)
  from count_cells_distinct [OF c Cons.prems(2)] have "distinct (map fst c1)" .
  from Cons.IH [OF k this] show ?case .
qed

lemma load_counts_distinct:
  assumes "load_counts pf rows = Inr counts"
  shows "distinct (map fst counts)"
  using assms count_rows_distinct [of pf _ _ "[]" counts]
  by (auto simp: load_counts_def split: list.splits)

lemma load_ftable_result:
  assumes "load_counts pf rows = Inr counts"
  shows "load_ftable pf rows =
     Inr (\<lambda>k. case map_of counts k of
                 Some v \<Rightarrow> Some (ln (clamp_prob v (row_sum counts (fst k))))
               | None \<Rightarrow> None)"
proof -
  have "logp_loop (row_totals counts) counts Map.empty =
     Inr (\<lambda>k. case map_of counts k of
                 Some v \<Rightarrow> Some (ln (clamp_prob v (row_sum counts (fst k))))
               | None \<Rightarrow> Map.empty k)"
    by (rule logp_loop_result [OF load_counts_distinct [OF assms]]) (rule row_totals_lookup)
  then show ?thesis by (simp add: load_ftable_def assms)
qed

lemma count_cells_parse:
  "count_cells pf header a i vs counts =
   count_cells (\<lambda>v. Some (float_or_zero pf v)) header a i vs counts"
  by (induction pf header a i vs counts rule: count_cells.induct)
    (simp_all add: float_or_zero_def)

lemma count_rows_parse:
  "count_rows pf header rs counts = count_rows (\<lambda>v. Some (float_or_zero pf v)) header rs counts"
proof (induction rs arbitrary: counts)
  case Nil
  then show ?case by simp
next
  case (Cons r rs)
  show ?case
    by (simp add: Cons.IH count_cells_parse [of pf] split: list.splits sum.splits)
qed

lemma load_ftable_parse:
  "load_ftable pf rows = load_ftable (\<lambda>v. Some (float_or_zero pf v)) rows"
  by (simp add: load_ftable_def load_counts_def count_rows_parse [of pf] split: list.splits)

lemma count_cells_error:
  "count_cells pf header a i vs counts = Inl e \<Longrightarrow> e = IndexError"
  by (induction pf header a i vs counts rule: count_cells.induct) (auto split: if_splits)

lemma count_rows_error:
  "count_rows pf header rs counts = Inl e \<Longrightarrow> e = IndexError"
proof (induction rs arbitrary: counts)
  case Nil
  then show ?case by simp
next
  case (Cons r rs)
  then show ?case
    by (auto split: list.splits sum.splits dest: count_cells_error)
qed

lemma load_ftable_error:
  assumes "load_ftable pf rows = Inl e"
  shows "e = IndexError"
proof (cases "load_counts pf rows")
  case (Inl e')
  with assms have "e' = e" by (simp add: load_ftable_def)
  with Inl show ?thesis
    by (auto simp: load_counts_def split: list.splits dest: count_rows_error)
next
  case (Inr counts)
  from load_ftable_result [OF Inr] assms show ?thesis by simp
qed

lemma update_fresh: "k \<notin> fst ` set al \<Longrightarrow> AList.update k v al = al @ [(k, v)]"
  by (induction al) auto

lemma count_cells_fresh:
  assumes "i + length vs \<le> length header"
    and "distinct (map fst (counts @
           map (\<lambda>(j, v). ((a, header ! j), float_or_zero pf v)) (zip [i..<i + length vs] vs)))"
  shows "count_cells pf header a i vs counts =
     Inr (counts @ map (\<lambda>(j, v). ((a, header ! j), float_or_zero pf v)) (zip [i..<i + length vs] vs))"
  using assms
proof (induction vs arbitrary: i counts)
  case Nil
  then show ?case by simp
next
  case (Cons v vs)
  have "[i..<i + length (v # vs)] = i # [Suc i..<Suc i + length vs]"
    by (subst upt_rec) simp
  then have z: "zip [i..<i + length (v # vs)] (v # vs) = (i, v) # zip [Suc i..<Suc i + length vs] vs"
    by simp
  have i: "i < length header" using Cons.prems(1) by simp
  have fresh: "(a, header ! i) \<notin> fst ` set counts"
    using Cons.prems(2) unfolding z by auto
  have u: "AList.update (a, header ! i) (float_or_zero pf v) counts =
             counts @ [((a, header ! i), float_or_zero pf v)]"
    by (rule update_fresh [OF fresh])
  have "count_cells pf header a (Suc i) vs (counts @ [((a, header ! i), float_or_zero pf v)]) =
     Inr ((counts @ [((a, header ! i), float_or_zero pf v)]) @
       map (\<lambda>(j, v). ((a, header ! j), float_or_zero pf v)) (zip [Suc i..<Suc i + length vs] vs))"
  proof (rule Cons.IH)
    show "Suc i + length vs \<le> length header" using Cons.prems(1) by simp
    show "distinct (map fst ((counts @ [((a, header ! i), float_or_zero pf v)]) @
           map (\<lambda>(j, v). ((a, header ! j), float_or_zero pf v))
             (zip [Suc i..<Suc i + length vs] vs)))"
      using Cons.prems(2) unfolding z by simp
  qed
  then show ?case unfolding z by (simp add: i u)
qed

lemma distinct_prefix: "distinct (xs @ ys @ zs) \<Longrightarrow> distinct (xs @ ys)"
  by auto

lemma count_rows_fresh:
  assumes "\<forall>r \<in> set body. r \<noteq> [] \<and> length (tl r) \<le> length header"
    and "distinct (map fst (counts @ table_cells pf header body))"
  shows "count_rows pf header body counts = Inr (counts @ table_cells pf header body)"
  using assms
proof (induction body arbitrary: counts)
  case Nil
  then show ?case by (simp add: table_cells_def)
next
  case (Cons r body)
  from Cons.prems(1) obtain r0 vs where r: "r = r0 # vs" and l: "length vs \<le> length header"
    by (cases r) auto
  have tc: "table_cells pf header (r # body) = row_cells pf header r @ table_cells pf header body"
    by (simp add: table_cells_def)
  have rc: "row_cells pf header r =
      map (\<lambda>(j, v). ((strip r0, header ! j), float_or_zero pf v)) (zip [0..<0 + length vs] vs)"
    by (simp add: row_cells_def r)
  have d: "distinct (map fst (counts @ row_cells pf header r))"
    using distinct_prefix [of "map fst counts" "map fst (row_cells pf header r)"
        "map fst (table_cells pf header body)"] Cons.prems(2)
    unfolding tc by simp
  have c: "count_cells pf header (strip r0) 0 vs counts = Inr (counts @ row_cells pf header r)"
    unfolding rc
  proof (rule count_cells_fresh)
    show "0 + length vs \<le> length header" using l by simp
    show "distinct (map fst (counts @
           map (\<lambda>(j, v). ((strip r0, header ! j), float_or_zero pf v)) (zip [0..<0 + length vs] vs)))"
      using d by (simp only: rc)
  qed
  have step: "count_rows pf header (r # body) counts =
          count_rows pf header body (counts @ row_cells pf header r)"
    using c by (simp add: r)
  have "count_rows pf header body (counts @ row_cells pf header r) =
          Inr ((counts @ row_cells pf header r) @ table_cells pf header body)"
  proof (rule Cons.IH)
    show "\<forall>r \<in> set body. r \<noteq> [] \<and> length (tl r) \<le> length header"
      using Cons.prems(1) by simp
    show "distinct (map fst ((counts @ row_cells pf header r) @ table_cells pf header body))"
      using Cons.prems(2) unfolding tc by simp
  qed
  then show ?case unfolding step tc by simp
qed

lemma load_counts_cells:
  assumes "\<forall>r \<in> set body. r \<noteq> [] \<and> length (tl r) \<le> length (drop 1 r0)"
    and "distinct (map fst (table_cells pf (drop 1 r0) body))"
  shows "load_counts pf (r0 # body) = Inr (table_cells pf (drop 1 r0) body)"
  using count_rows_fresh [of body "drop 1 r0" "[]" pf] assms
  by (simp add: load_counts_def)

lemma clamp_prob_ge: "floor_prob \<le> clamp_prob v tot"
  by (simp add: clamp_prob_def)

lemma load_ftable_values:
  assumes "load_ftable pf rows = Inr logp" and "logp k = Some x"
  shows "ln floor_prob \<le> x"
proof -
  from assms(1) obtain counts where c: "load_counts pf rows = Inr counts"
    by (auto simp: load_ftable_def split: sum.splits)
  from load_ftable_result [OF c] assms obtain v where
    "x = ln (clamp_prob v (row_sum counts (fst k)))"
    by (auto split: option.splits)
  moreover have "0 < floor_prob" by (simp add: floor_prob_def)
  ultimately show ?thesis using clamp_prob_ge [of v "row_sum counts (fst k)"] by simp
qed

lemmas table_eval_defs =
  load_counts_def str_of_def strip_def is_space_def digits_float_def float_or_zero_def

lemma tiny_ratio_counts:
  "load_counts digits_float tiny_ratio_rows =
     Inr [(([65], [65]), 1), (([65], [66]), 9999999999)]"
  by (simp add: tiny_ratio_rows_def table_eval_defs)

lemma example_counts:
  "load_counts digits_float example_rows =
     Inr [(([65], [65]), 3), (([65], [66]), 0), (([66], [65]), 0), (([66], [66]), 0)]"
  by (simp add: example_rows_def table_eval_defs)

lemma tiny_ratio_stored:
  "(case load_ftable digits_float tiny_ratio_rows of
      Inl e \<Rightarrow> None
    | Inr logp \<Rightarrow> logp ([65], [65])) = Some (ln (1 / 10 ^ 9))"
  by (simp add: load_ftable_result [OF tiny_ratio_counts] row_sum_def clamp_prob_def floor_prob_def)

text \<open>
  Claim C5, as amended. For every pair (row character \<open>a\<close>, column character \<open>b\<close>)
  of the loaded counts, \<open>load_ftable\<close> stores the logarithm of the larger of
  \<open>count (a, b) / total a\<close> and the floor \<open>1 / 10 ^ 9\<close>, and the logarithm of the
  floor when the row total is not positive; nothing else is stored. The total of a
  row is the sum of the loaded counts of that row. For a table in which no key occurs
  twice, no row is empty and no row is longer than the header, the loaded counts are
  the cells of the table, each under the key (its row's first cell with the
  surrounding white space removed, the header's entry of its column). A cell that is
  no number counts as zero: the result is that of a parser that reads such a cell as
  zero, and no \<^verbatim>\<open>ValueError\<close> leaves the function. The claim as written (the floor only
  when the ratio or the row total is zero) fails for a ratio between zero and the
  floor.
\<close>

theorem load_ftable_stores_clamped_log:
  "(load_counts pyfloat rows = Inr counts \<longrightarrow>
      (\<exists>logp. load_ftable pyfloat rows = Inr logp \<and> dom logp = fst ` set counts \<and>
         (\<forall>a b v. ((a, b), v) \<in> set counts \<longrightarrow>
            logp (a, b) = Some (ln (if row_sum counts a \<le> 0 then 1 / 10 ^ 9
                                    else max (v / row_sum counts a) (1 / 10 ^ 9)))))) \<and>
   ((\<forall>r \<in> set body. r \<noteq> [] \<and> length (tl r) \<le> length (drop 1 r0)) \<longrightarrow>
    distinct (map fst (table_cells pyfloat (drop 1 r0) body)) \<longrightarrow>
      load_counts pyfloat (r0 # body) = Inr (table_cells pyfloat (drop 1 r0) body)) \<and>
   load_ftable pyfloat rows = load_ftable (\<lambda>v. Some (float_or_zero pyfloat v)) rows \<and>
   load_ftable pyfloat rows \<noteq> Inl ValueError"
proof (intro conjI impI)
  assume c: "load_counts pyfloat rows = Inr counts"
  let ?logp = "\<lambda>k. case map_of counts k of
                 Some v \<Rightarrow> Some (ln (clamp_prob v (row_sum counts (fst k))))
               | None \<Rightarrow> None"
  have d: "distinct (map fst counts)" by (rule load_counts_distinct [OF c])
  have "load_ftable pyfloat rows = Inr ?logp" by (rule load_ftable_result [OF c])
  moreover have "dom ?logp = fst ` set counts"
    by (auto simp: dom_def weak_map_of_SomeI map_of_eq_None_iff split: option.splits
        dest: map_of_SomeD)
  moreover have "\<forall>a b v. ((a, b), v) \<in> set counts \<longrightarrow>
            ?logp (a, b) = Some (ln (if row_sum counts a \<le> 0 then 1 / 10 ^ 9
                                    else max (v / row_sum counts a) (1 / 10 ^ 9)))"
    using d by (simp add: clamp_prob_def floor_prob_def)
  ultimately show "\<exists>logp. load_ftable pyfloat rows = Inr logp \<and> dom logp = fst ` set counts \<and>
         (\<forall>a b v. ((a, b), v) \<in> set counts \<longrightarrow>
            logp (a, b) = Some (ln (if row_sum counts a \<le> 0 then 1 / 10 ^ 9
                                    else max (v / row_sum counts a) (1 / 10 ^ 9))))"
    by blast
next
  assume "\<forall>r \<in> set body. r \<noteq> [] \<and> length (tl r) \<le> length (drop 1 r0)"
    and "distinct (map fst (table_cells pyfloat (drop 1 r0) body))"
  then show "load_counts pyfloat (r0 # body) = Inr (table_cells pyfloat (drop 1 r0) body)"
    by (rule load_counts_cells)
next
  show "load_ftable pyfloat rows = load_ftable (\<lambda>v. Some (float_or_zero pyfloat v)) rows"
    by (rule load_ftable_parse)
next
  show "load_ftable pyfloat rows \<noteq> Inl ValueError"
    using load_ftable_error [of pyfloat rows ValueError] by auto
qed

theorem load_ftable_stores_clamped_log_witness:
  "load_counts digits_float example_rows =
     Inr [(([65], [65]), 3), (([65], [66]), 0), (([66], [65]), 0), (([66], [66]), 0)] \<and>
   table_cells digits_float (drop 1 (hd example_rows)) (tl example_rows) =
     [(([65], [65]), 3), (([65], [66]), 0), (([66], [65]), 0), (([66], [66]), 0)] \<and>
   digits_float (str_of ''x'') = None \<and>
   (\<exists>logp. load_ftable digits_float example_rows = Inr logp \<and>
      logp ([65], [65]) = Some 0 \<and> logp ([65], [66]) = Some (ln (1 / 10 ^ 9)) \<and>
      logp ([66], [65]) = Some (ln (1 / 10 ^ 9)))"
proof -
  let ?cells = "[(([65], [65]), 3), (([65], [66]), 0), (([66], [65]), 0), (([66], [66]), 0)]
                  :: ((pystr \<times> pystr) \<times> real) list"
  have rs: "row_sum ?cells [65] = 3" "row_sum ?cells [66] = 0"
    by (simp_all add: row_sum_def)
  have tc: "table_cells digits_float (drop 1 (hd example_rows)) (tl example_rows) = ?cells"
    by (simp add: example_rows_def table_cells_def row_cells_def table_eval_defs upt_conv_Cons)
  have x: "digits_float (str_of ''x'') = None"
    by (simp add: table_eval_defs)
  from load_ftable_stores_clamped_log
    [where pyfloat = digits_float and rows = example_rows and counts = ?cells
      and body = "tl example_rows" and ?r0.0 = "hd example_rows"]
    example_counts
  obtain logp where "load_ftable digits_float example_rows = Inr logp"
    and "\<forall>a b v. ((a, b), v) \<in> set ?cells \<longrightarrow>
            logp (a, b) = Some (ln (if row_sum ?cells a \<le> 0 then 1 / 10 ^ 9
                                    else max (v / row_sum ?cells a) (1 / 10 ^ 9)))"
    by blast
  then have "load_ftable digits_float example_rows = Inr logp \<and>
      logp ([65], [65]) = Some 0 \<and> logp ([65], [66]) = Some (ln (1 / 10 ^ 9)) \<and>
      logp ([66], [65]) = Some (ln (1 / 10 ^ 9))"
    by (simp add: rs)
  with example_counts tc x show ?thesis by blast
qed

theorem load_ftable_tiny_ratio_counterexample:
  "load_counts digits_float tiny_ratio_rows =
     Inr [(([65], [65]), 1), (([65], [66]), 9999999999)] \<and>
   (case load_ftable digits_float tiny_ratio_rows of
      Inl e \<Rightarrow> None
    | Inr logp \<Rightarrow> logp ([65], [65])) = Some (ln (1 / 10 ^ 9)) \<and>
   ln (spec_prob 1 (1 + 9999999999)) \<noteq> ln (1 / 10 ^ 9)"
  using tiny_ratio_counts tiny_ratio_stored
  by (simp add: spec_prob_def)

subsection \<open>The word bonus and the penalty\<close>

lemma code2_ge: "194 \<le> b \<Longrightarrow> 128 \<le> code2 b c"
  by (simp add: code2_def word_le_nat_alt)

lemma code3_ge:
  assumes "224 \<le> b" and "second_ok b c"
  shows "128 \<le> code3 b c d"
proof (cases "b = 224")
  case True
  with assms(2) have "160 \<le> unat c" by (simp add: second_ok_def word_le_nat_alt)
  then show ?thesis by (simp add: code3_def)
next
  case False
  with assms(1) have "224 < b" by simp
  then have "225 \<le> unat b" by (simp add: word_less_nat_alt)
  then show ?thesis by (simp add: code3_def)
qed

lemma code4_ge:
  assumes "240 \<le> b" and "second_ok b c"
  shows "128 \<le> code4 b c d e"
proof (cases "b = 240")
  case True
  with assms(2) have "144 \<le> unat c" by (simp add: second_ok_def word_le_nat_alt)
  then show ?thesis by (simp add: code4_def)
next
  case False
  with assms(1) have "240 < b" by simp
  then have "241 \<le> unat b" by (simp add: word_less_nat_alt)
  then show ?thesis by (simp add: code4_def)
qed

lemma decode_step:
  "\<exists>pre rest. utf8_decode_ignore (b # bs) = pre @ utf8_decode_ignore rest \<and>
     length rest \<le> length bs \<and> set rest \<subseteq> set bs \<and>
     (\<forall>x \<in> set pre. 128 \<le> x \<or> (b < 128 \<and> x = unat b))"
proof -
  let ?P = "\<lambda>pre rest. utf8_decode_ignore (b # bs) = pre @ utf8_decode_ignore rest \<and>
     length rest \<le> length bs \<and> set rest \<subseteq> set bs \<and>
     (\<forall>x \<in> set pre. 128 \<le> x \<or> (b < 128 \<and> x = unat b))"
  have nil: "utf8_decode_ignore [] = []" by simp
  consider (ascii) "b < 128"
    | (two) "\<not> b < 128" "194 \<le> b \<and> b \<le> 223"
    | (three) "\<not> b < 128" "\<not> (194 \<le> b \<and> b \<le> 223)" "224 \<le> b \<and> b \<le> 239"
    | (four) "\<not> b < 128" "\<not> (194 \<le> b \<and> b \<le> 223)" "\<not> (224 \<le> b \<and> b \<le> 239)"
        "240 \<le> b \<and> b \<le> 244"
    | (bad) "\<not> b < 128" "\<not> (194 \<le> b \<and> b \<le> 223)" "\<not> (224 \<le> b \<and> b \<le> 239)"
        "\<not> (240 \<le> b \<and> b \<le> 244)"
    by blast
  then show ?thesis
  proof cases
    case ascii
    then have "?P [unat b] bs"
      by (subst utf8_decode_ignore.simps) (auto simp del: utf8_decode_ignore.simps)
    then show ?thesis by blast
  next
    case bad
    then have "?P [] bs"
      by (subst utf8_decode_ignore.simps) (auto simp del: utf8_decode_ignore.simps)
    then show ?thesis by blast
  next
    case two
    show ?thesis
    proof (cases bs)
      case Nil
      with two have "?P [] []"
        by (subst utf8_decode_ignore.simps) (auto simp del: utf8_decode_ignore.simps simp add: nil)
      then show ?thesis by blast
    next
      case (Cons c r1)
      show ?thesis
      proof (cases "is_cont c")
        case True
        with two Cons code2_ge [of b c] have "?P [code2 b c] r1"
          by (subst utf8_decode_ignore.simps) (auto simp del: utf8_decode_ignore.simps)
        then show ?thesis by blast
      next
        case False
        with two Cons have "?P [] bs"
          by (subst utf8_decode_ignore.simps) (auto simp del: utf8_decode_ignore.simps)
        then show ?thesis by blast
      qed
    qed
  next
    case three
    show ?thesis
    proof (cases bs)
      case Nil
      with three have "?P [] []"
        by (subst utf8_decode_ignore.simps) (auto simp del: utf8_decode_ignore.simps simp add: nil)
      then show ?thesis by blast
    next
      case (Cons c r1)
      show ?thesis
      proof (cases "second_ok b c")
        case False
        with three Cons have "?P [] bs"
          by (subst utf8_decode_ignore.simps) (auto simp del: utf8_decode_ignore.simps)
        then show ?thesis by blast
      next
        case ok: True
        show ?thesis
        proof (cases r1)
          case Nil
          with three Cons ok have "?P [] []"
            by (subst utf8_decode_ignore.simps) (auto simp del: utf8_decode_ignore.simps simp add: nil)
          then show ?thesis by blast
        next
          case r1: (Cons d r2)
          show ?thesis
          proof (cases "is_cont d")
            case True
            with three Cons ok r1 code3_ge [of b c d] have "?P [code3 b c d] r2"
              by (subst utf8_decode_ignore.simps) (auto simp del: utf8_decode_ignore.simps)
            then show ?thesis by blast
          next
            case False
            with three Cons ok r1 have "?P [] r1"
              by (subst utf8_decode_ignore.simps) (auto simp del: utf8_decode_ignore.simps)
            then show ?thesis by blast
          qed
        qed
      qed
    qed
  next
    case four
    show ?thesis
    proof (cases bs)
      case Nil
      with four have "?P [] []"
        by (subst utf8_decode_ignore.simps) (auto simp del: utf8_decode_ignore.simps simp add: nil)
      then show ?thesis by blast
    next
      case (Cons c r1)
      show ?thesis
      proof (cases "second_ok b c")
        case False
        with four Cons have "?P [] bs"
          by (subst utf8_decode_ignore.simps) (auto simp del: utf8_decode_ignore.simps)
        then show ?thesis by blast
      next
        case ok: True
        show ?thesis
        proof (cases r1)
          case Nil
          with four Cons ok have "?P [] []"
            by (subst utf8_decode_ignore.simps) (auto simp del: utf8_decode_ignore.simps simp add: nil)
          then show ?thesis by blast
        next
          case r1: (Cons d r2)
          show ?thesis
          proof (cases "is_cont d")
            case False
            with four Cons ok r1 have "?P [] r1"
              by (subst utf8_decode_ignore.simps) (auto simp del: utf8_decode_ignore.simps)
            then show ?thesis by blast
          next
            case cd: True
            show ?thesis
            proof (cases r2)
              case Nil
              with four Cons ok r1 cd have "?P [] []"
                by (subst utf8_decode_ignore.simps)
                  (auto simp del: utf8_decode_ignore.simps simp add: nil)
              then show ?thesis by blast
            next
              case r2: (Cons e r3)
              show ?thesis
              proof (cases "is_cont e")
                case True
                with four Cons ok r1 cd r2 code4_ge [of b c d e] have "?P [code4 b c d e] r3"
                  by (subst utf8_decode_ignore.simps) (auto simp del: utf8_decode_ignore.simps)
                then show ?thesis by blast
              next
                case False
                with four Cons ok r1 cd r2 have "?P [] r2"
                  by (subst utf8_decode_ignore.simps) (auto simp del: utf8_decode_ignore.simps)
                then show ?thesis by blast
              qed
            qed
          qed
        qed
      qed
    qed
  qed
qed

lemma decode_points:
  "x \<in> set (utf8_decode_ignore bs) \<Longrightarrow> 128 \<le> x \<or> (\<exists>b \<in> set bs. b < 128 \<and> x = unat b)"
proof (induction "length bs" arbitrary: bs rule: less_induct)
  case less
  show ?case
  proof (cases bs)
    case Nil
    with less.prems show ?thesis by simp
  next
    case (Cons b bs')
    from decode_step [of b bs'] obtain pre rest where
      eq: "utf8_decode_ignore (b # bs') = pre @ utf8_decode_ignore rest"
      and len: "length rest \<le> length bs'" and sub: "set rest \<subseteq> set bs'"
      and pre: "\<forall>x \<in> set pre. 128 \<le> x \<or> (b < 128 \<and> x = unat b)"
      by blast
    from less.prems have "x \<in> set pre \<or> x \<in> set (utf8_decode_ignore rest)"
      unfolding Cons eq by simp
    then show ?thesis
    proof
      assume "x \<in> set pre"
      with pre show ?thesis unfolding Cons by auto
    next
      assume r: "x \<in> set (utf8_decode_ignore rest)"
      have "length rest < length bs" using len Cons by simp
      from less.hyps [OF this r] sub show ?thesis unfolding Cons by auto
    qed
  qed
qed

lemma alphabet_keys: "set ALPHABET = set (map fst spec_char_table)"
  by (simp add: ALPHABET_def spec_char_table_def bytes_of_def str_of_def)

lemma alphabet_scoreable: "b \<in> set ALPHABET \<Longrightarrow> byte_to_char b \<noteq> None"
  using table_entries unfolding alphabet_keys by fastforce

lemma non_alphabet_unscoreable: "b \<notin> set ALPHABET \<Longrightarrow> byte_to_char b = None"
  using scoreable_in_keys [of b] unfolding alphabet_keys by blast

lemma str_count_absent:
  assumes "w \<noteq> []" and "hd w \<notin> set s"
  shows "str_count s w = 0"
  using assms(2)
proof (induction s)
  case Nil
  then show ?case by (subst str_count.simps) (simp add: assms(1))
next
  case (Cons c cs)
  have "take (length w) (c # cs) \<noteq> w"
  proof
    assume "take (length w) (c # cs) = w"
    then have "hd w = hd (take (length w) (c # cs))" by simp
    also have "\<dots> = c" using assms(1) by (cases w) simp_all
    finally show False using Cons.prems by simp
  qed
  moreover have "str_count cs w = 0" using Cons by simp
  ultimately show ?case by (subst str_count.simps) (simp add: assms(1))
qed

lemma common_words_letters: "\<forall>w \<in> set COMMON_WORDS. w \<noteq> [] \<and> word_letter (hd w)"
  by (simp add: COMMON_WORDS_def str_of_def word_letter_def)

lemma fold_bonus_zero:
  assumes "\<forall>w \<in> set ws. f w = 0"
  shows "fold (\<lambda>word bonus. bonus + int (f word) * 10000) ws a = a"
  using assms by (induction ws arbitrary: a) simp_all

lemma fold_bonus_nonneg:
  "0 \<le> a \<Longrightarrow> 0 \<le> fold (\<lambda>word bonus. bonus + int (f word) * 10000) ws a"
  by (induction ws arbitrary: a) simp_all

lemma word_bonus_nonneg: "0 \<le> word_bonus_score ul t"
  by (simp add: word_bonus_score_def Let_def fold_bonus_nonneg)

lemma word_bonus_no_letters:
  assumes "\<forall>x \<in> set (str_lower ul t). \<not> word_letter x"
  shows "word_bonus_score ul t = 0"
proof -
  have "\<forall>w \<in> set COMMON_WORDS. str_count (str_lower ul t) w = 0"
  proof
    fix w assume "w \<in> set COMMON_WORDS"
    with common_words_letters have "w \<noteq> []" "word_letter (hd w)" by auto
    with assms have "hd w \<notin> set (str_lower ul t)" by auto
    with \<open>w \<noteq> []\<close> show "str_count (str_lower ul t) w = 0" by (rule str_count_absent)
  qed
  then show ?thesis by (simp add: word_bonus_score_def Let_def fold_bonus_zero)
qed

lemma lowered_non_alphabet:
  assumes ul: "lower_beyond_ascii ul" and na: "set a \<inter> set ALPHABET = {}"
    and x: "x \<in> set (str_lower ul (utf8_decode_ignore a))"
  shows "\<not> word_letter x"
proof -
  from x obtain c where c: "c \<in> set (utf8_decode_ignore a)"
    and xc: "x \<in> set (if 65 \<le> c \<and> c \<le> 90 then [c + 32] else if c < 128 then [c] else ul c)"
    by (auto simp: str_lower_def)
  from decode_points [OF c] show ?thesis
  proof
    assume "128 \<le> c"
    with xc have "x \<in> set (ul c)" by simp
    with ul \<open>128 \<le> c\<close> show ?thesis
      unfolding lower_beyond_ascii_def word_letter_def by blast
  next
    assume "\<exists>b \<in> set a. b < 128 \<and> c = unat b"
    then obtain b where b: "b \<in> set a" "b < 128" "c = unat b" by blast
    with na have "b \<notin> set ALPHABET" by auto
    then have "byte_to_char b = None" by (rule non_alphabet_unscoreable)
    then have "\<not> (65 \<le> b \<and> b \<le> 90)" "\<not> (97 \<le> b \<and> b \<le> 122)"
      by (auto simp: byte_to_char_def split: if_splits)
    then have r: "\<not> (65 \<le> c \<and> c \<le> 90)" "\<not> (97 \<le> c \<and> c \<le> 122)"
      by (simp_all add: b(3) word_le_nat_alt)
    from b(2) have "c < 128" by (simp add: b(3) word_less_nat_alt)
    with xc r have "x = c" by simp
    with r show ?thesis by (auto simp: word_letter_def)
  qed
qed

lemma ln_floor_gt: "- 100 < ln floor_prob"
proof -
  have "ln (exp (- 100 :: real)) < ln (1 / 10 ^ 9)"
    using exp_minus_100 by (subst ln_less_cancel_iff) simp_all
  then show ?thesis by (simp add: floor_prob_def)
qed

lemma score_non_alphabet:
  assumes "set a \<inter> set ALPHABET = {}"
  shows "score_bigram a logp = - 100 * real (length a - 1)"
proof -
  have "spec_pair_term logp (a ! i) (a ! (i + 1)) = - 100" if "i < length a - 1" for i
  proof -
    from that have "a ! i \<in> set a" by simp
    with assms have "a ! i \<notin> set ALPHABET" by auto
    then have "byte_to_char (a ! i) = None" by (rule non_alphabet_unscoreable)
    then have "map_of spec_char_table (a ! i) = None" by (simp add: byte_to_char_table)
    then show ?thesis by (simp add: spec_pair_term_def)
  qed
  then show ?thesis by (simp add: score_bigram_sum)
qed

lemma score_alphabet:
  assumes "set b \<subseteq> set ALPHABET"
    and "\<And>k x. logp k = Some x \<Longrightarrow> ln floor_prob \<le> x"
  shows "real (length b - 1) * ln floor_prob \<le> score_bigram b logp"
proof -
  have "ln floor_prob \<le> spec_pair_term logp (b ! i) (b ! (i + 1))" if "i < length b - 1" for i
  proof -
    from that have "b ! i \<in> set b" "b ! (i + 1) \<in> set b" by simp_all
    with assms(1) have m: "b ! i \<in> set ALPHABET" "b ! (i + 1) \<in> set ALPHABET"
      by auto
    from alphabet_scoreable [OF m(1)] alphabet_scoreable [OF m(2)]
    obtain x y where "map_of spec_char_table (b ! i) = Some x"
      "map_of spec_char_table (b ! (i + 1)) = Some y"
      by (auto simp: byte_to_char_table)
    then have "spec_pair_term logp (b ! i) (b ! (i + 1)) = spec_logProb logp x y"
      by (simp add: spec_pair_term_def)
    moreover have "ln floor_prob \<le> spec_logProb logp x y"
      using assms(2) [of "(x, y)"]
      by (auto simp: spec_logProb_def floor_prob_def split: option.splits)
    ultimately show ?thesis by simp
  qed
  then have "real (card {..<length b - 1}) * ln floor_prob \<le>
      (\<Sum>i<length b - 1. spec_pair_term logp (b ! i) (b ! (i + 1)))"
    by (intro sum_bounded_below) simp
  then show ?thesis by (simp add: score_bigram_sum)
qed

lemma combined_non_alphabet:
  assumes "lower_beyond_ascii ul" and "set a \<inter> set ALPHABET = {}"
  shows "combined_score ul a logp = - 100 * real (length a - 1)"
proof -
  have "word_bonus_score ul (utf8_decode_ignore a) = 0"
    by (rule word_bonus_no_letters) (use lowered_non_alphabet [OF assms] in blast)
  then show ?thesis by (simp add: combined_score_def Let_def score_non_alphabet [OF assms(2)])
qed

lemma combined_alphabet:
  assumes "set b \<subseteq> set ALPHABET"
    and "\<And>k x. logp k = Some x \<Longrightarrow> ln floor_prob \<le> x"
  shows "real (length b - 1) * ln floor_prob \<le> combined_score ul b logp"
proof -
  have "0 \<le> real_of_int (word_bonus_score ul (utf8_decode_ignore b))"
    using word_bonus_nonneg by simp
  moreover have "real (length b - 1) * ln floor_prob \<le> score_bigram b logp"
    by (rule score_alphabet [OF assms(1)]) (rule assms(2))
  ultimately show ?thesis by (simp add: combined_score_def Let_def)
qed

lemma plain_lower_ok: "lower_beyond_ascii plain_lower"
  by (simp add: lower_beyond_ascii_def plain_lower_def)

text \<open>
  Claim C8. For every length of at least two and every frequency table that
  \<open>load_ftable\<close> returns (whatever the counts are), a candidate made only of bytes
  outside the alphabet has a strictly lower combined score than a candidate of the
  same length made only of bytes of the alphabet (the space and the letters). The
  first scores \<open>- 100\<close> for each adjacent pair and earns no word bonus; the second
  scores at least the logarithm of the floor for each pair, which is above \<open>- 100\<close>,
  and its bonus is not negative. The Unicode lower-casing is a parameter of the model;
  the theorem asks of it what holds of Python's: beyond ASCII it yields no small
  ASCII letter other than \<open>i\<close> and \<open>k\<close>.
\<close>

theorem penalty_dominance:
  assumes "load_ftable pyfloat rows = Inr logp"
    and "lower_beyond_ascii ulower"
    and "2 \<le> length a" and "length b = length a"
    and "set a \<inter> set ALPHABET = {}"
    and "set b \<subseteq> set ALPHABET"
  shows "combined_score ulower a logp < combined_score ulower b logp"
proof -
  have v: "ln floor_prob \<le> x" if "logp k = Some x" for k x
    using load_ftable_values [OF assms(1) that] .
  have n: "0 < real (length a - 1)" using assms(3) by simp
  have "combined_score ulower a logp = real (length a - 1) * (- 100)"
    by (simp add: combined_non_alphabet [OF assms(2,5)])
  also have "\<dots> < real (length a - 1) * ln floor_prob"
    using n ln_floor_gt by (rule mult_strict_left_mono [rotated])
  also have "\<dots> \<le> combined_score ulower b logp"
    using combined_alphabet [OF assms(6) v] by (simp add: assms(4))
  finally show ?thesis .
qed

theorem penalty_dominance_witness:
  "\<exists>logp. load_ftable digits_float example_rows = Inr logp \<and>
     lower_beyond_ascii plain_lower \<and>
     set [33, 255 :: byte] \<inter> set ALPHABET = {} \<and> set [65, 98 :: byte] \<subseteq> set ALPHABET \<and>
     combined_score plain_lower [33, 255] logp < combined_score plain_lower [65, 98] logp"
proof -
  from load_ftable_result [OF example_counts] obtain logp where
    l: "load_ftable digits_float example_rows = Inr logp" by blast
  have a: "set [33, 255 :: byte] \<inter> set ALPHABET = {}"
    by (simp add: ALPHABET_def bytes_of_def)
  have b: "set [65, 98 :: byte] \<subseteq> set ALPHABET"
    by (simp add: ALPHABET_def bytes_of_def)
  have k: "2 \<le> length [33, 255 :: byte]" "length [65, 98 :: byte] = length [33, 255 :: byte]"
    by simp_all
  from penalty_dominance [OF l plain_lower_ok k a b] l plain_lower_ok a b
  show ?thesis by blast
qed

end
